theory Spec2Isabelle
  imports Complex_Main "HOL-Library.Log_Nat"
begin

section \<open>The portage search backend (backends/portage/custom.py)\<close>

text \<open>
  The four search drivers of \<^verbatim>\<open>PortageBackend\<close> and their helpers, as functions over an
  explicit package database. What a driver prints through the protocol layer is the list
  of events it returns; an exception that leaves a driver is the second component of its
  result.
\<close>

subsection \<open>Protocol values\<close>

datatype pk_filter =
  FILTER_INSTALLED | FILTER_NOT_INSTALLED | FILTER_NEWEST | FILTER_FREE | FILTER_OTHER string

datatype pk_info = INFO_INSTALLED | INFO_AVAILABLE

datatype pk_status = STATUS_QUERY

datatype pk_error = ERROR_CANNOT_GET_FILELIST

datatype exn = TypeError | ValueError | IndexError | UnboundLocalError

datatype event =
  Status pk_status
  | AllowCancel bool
  | Percentage rat
  | Package string pk_info string
  | Error pk_error string

text \<open>A run: the events emitted so far, and the exception that ended it, if any.\<close>

type_synonym run = "event list \<times> exn option"

definition then_do :: "run \<Rightarrow> run \<Rightarrow> run" where
  "then_do a b = (case snd a of Some e \<Rightarrow> a | None \<Rightarrow> (fst a @ fst b, snd b))"

fun percentages :: "event list \<Rightarrow> rat list" where
  "percentages [] = []"
| "percentages (Percentage p # evs) = p # percentages evs"
| "percentages (_ # evs) = percentages evs"

fun packages :: "event list \<Rightarrow> event list" where
  "packages [] = []"
| "packages (Package i n d # evs) = Package i n d # packages evs"
| "packages (_ # evs) = packages evs"

fun errors :: "event list \<Rightarrow> event list" where
  "errors [] = []"
| "errors (Error k m # evs) = Error k m # errors evs"
| "errors (_ # evs) = errors evs"

subsection \<open>Python floats\<close>

text \<open>
  A Python float is an IEEE 754 binary64 number, so it is a rational; an arithmetic
  operation returns the exact result rounded to 53 significant bits, ties to the even
  significand. Exponent overflow and subnormal numbers are left out: the operands here
  are list lengths and percentages, far inside the normal range.
\<close>

definition round_half_even :: "rat \<Rightarrow> int" where
  "round_half_even q =
     (let f = \<lfloor>q\<rfloor>; r = q - of_int f
      in if r < 1 / 2 then f else if 1 / 2 < r then f + 1 else if even f then f else f + 1)"

text \<open>The binary exponent of a positive rational: the \<open>e\<close> with \<open>2^e \<le> x < 2^(e+1)\<close>.\<close>

definition ilog2 :: "rat \<Rightarrow> int" where
  "ilog2 x = (let (p, q) = quotient_of x; e = bitlen p - bitlen q
              in if 2 powi e \<le> x then e else e - 1)"

definition binary64 :: "rat \<Rightarrow> rat" where
  "binary64 x =
     (if x = 0 then 0
      else let u = 2 powi (ilog2 \<bar>x\<bar> - 52)
           in sgn x * of_int (round_half_even (\<bar>x\<bar> / u)) * u)"

text \<open>\<^verbatim>\<open>float(n)\<close> for an int, \<^verbatim>\<open>a * b\<close> and \<^verbatim>\<open>a / b\<close> on floats (\<open>b\<close> is never zero here).\<close>

definition float_of_int :: "nat \<Rightarrow> rat" where
  "float_of_int n = binary64 (of_nat n)"

definition float_mul :: "rat \<Rightarrow> rat \<Rightarrow> rat" where
  "float_mul a b = binary64 (a * b)"

definition float_div :: "rat \<Rightarrow> rat \<Rightarrow> rat" where
  "float_div a b = binary64 (a / b)"

subsection \<open>compute_equal_steps\<close>

text \<open>
  \<^verbatim>\<open>
  def compute_equal_steps(iterable):
      if not iterable:
          return []
      return [idx * (100.0 / len(iterable))
              for idx, _ in enumerate(iterable, start=1)]
  \<close>
\<close>

definition compute_equal_steps :: "'a list \<Rightarrow> rat list" where
  "compute_equal_steps iterable =
     (if iterable = [] then []
      else map (\<lambda>idx. float_mul (float_of_int idx)
                         (float_div 100 (float_of_int (length iterable))))
             [1 ..< Suc (length iterable)])"

subsection \<open>Compiled search expressions\<close>

text \<open>
  The drivers only compile escaped keys with \<^verbatim>\<open>re.IGNORECASE\<close>:
  \<^verbatim>\<open>re.compile(re.escape(k), re.IGNORECASE)\<close> in the name search and
  \<^verbatim>\<open>re.compile("/" + re.escape(key) + "$", re.IGNORECASE)\<close> in the file search. An escaped
  key matches itself literally, so a compiled expression is represented by the key it was
  escaped from. A character is a code point below 256. Two of them match when their
  lower-case forms are equal, as for a \<^verbatim>\<open>str\<close> pattern: the letters A to Z and the Latin-1
  capitals from 192 to 222, the sign 215 apart, fold to the letter 32 places on. Text with
  a code point from 256 on is outside the model.
\<close>

datatype pattern = Substr string | PathEnd string

definition lower :: "char \<Rightarrow> char" where
  "lower c =
     (let n = (of_char c :: nat)
      in if (65 \<le> n \<and> n \<le> 90) \<or> (192 \<le> n \<and> n \<le> 222 \<and> n \<noteq> 215) then char_of (n + 32)
         else c)"

text \<open>The literal matches at the start of the text.\<close>

fun ci_prefix :: "string \<Rightarrow> string \<Rightarrow> bool" where
  "ci_prefix [] t = True"
| "ci_prefix (p # ps) [] = False"
| "ci_prefix (p # ps) (c # cs) = (lower p = lower c \<and> ci_prefix ps cs)"

text \<open>\<^verbatim>\<open>search\<close>: the literal matches at some position of the text.\<close>

fun ci_search :: "string \<Rightarrow> string \<Rightarrow> bool" where
  "ci_search p [] = ci_prefix p []"
| "ci_search p (c # cs) = (ci_prefix p (c # cs) \<or> ci_search p cs)"

text \<open>
  The literal followed by \<^verbatim>\<open>$\<close> matches at the start of the text: \<^verbatim>\<open>$\<close> holds at the end
  of the text and just before a newline that ends it.
\<close>

fun ci_prefix_end :: "string \<Rightarrow> string \<Rightarrow> bool" where
  "ci_prefix_end [] t = (t = [] \<or> t = [CHR 0x0A])"
| "ci_prefix_end (p # ps) [] = False"
| "ci_prefix_end (p # ps) (c # cs) = (lower p = lower c \<and> ci_prefix_end ps cs)"

fun ci_search_end :: "string \<Rightarrow> string \<Rightarrow> bool" where
  "ci_search_end p [] = ci_prefix_end p []"
| "ci_search_end p (c # cs) = (ci_prefix_end p (c # cs) \<or> ci_search_end p cs)"

fun re_search :: "pattern \<Rightarrow> string \<Rightarrow> bool" where
  "re_search (Substr k) s = ci_search k s"
| "re_search (PathEnd k) s = ci_search_end (CHR ''/'' # k) s"

text \<open>\<^verbatim>\<open>re.escape\<close>: a backslash before each special character.\<close>

definition special_chars :: string where
  "special_chars = ''()[]{}?*+-|^$.&~# '' @ [CHR 0x5C, CHR 0x09, CHR 0x0A, CHR 0x0D, CHR 0x0B, CHR 0x0C]"

definition re_escape :: "string \<Rightarrow> string" where
  "re_escape s = concat (map (\<lambda>c. if c \<in> set special_chars then [CHR 0x5C, c] else [c]) s)"

subsection \<open>The package database and the methods defined elsewhere\<close>

text \<open>
  What the backend reads from portage, and the methods and attributes that the class uses
  without defining them in this file (\<^verbatim>\<open>_get_search_list\<close>, \<^verbatim>\<open>_get_real_license_str\<close>,
  \<^verbatim>\<open>_filter_newest\<close>, \<^verbatim>\<open>_filter_free\<close>, \<^verbatim>\<open>_get_file_list\<close>, \<^verbatim>\<open>_get_pk_group\<close>,
  \<^verbatim>\<open>get_package_id\<close>), are parameters. \<open>porttree_aux_get\<close> is \<^verbatim>\<open>None\<close> where \<^verbatim>\<open>aux_get\<close>
  raises, and otherwise gives one value for each requested field. \<open>progress_percent\<close> is
  the attribute \<^verbatim>\<open>percent\<close> of a fresh \<^verbatim>\<open>PackagekitProgress\<close>.
\<close>

record portage =
  vardb_cp_all :: "string list"
  vardb_cpv_all :: "string list"
  portdb_cp_all :: "string list"
  porttree_match :: "string \<Rightarrow> string list"
  porttree_aux_get :: "string \<Rightarrow> string list \<Rightarrow> (string \<Rightarrow> string) option"
  vartree_match :: "string \<Rightarrow> string list"
  cpv_getkey :: "string \<Rightarrow> string"
  cpv_getversion :: "string \<Rightarrow> string"
  settings_ARCH :: "string option"
  get_package_id :: "string \<Rightarrow> string \<Rightarrow> string \<Rightarrow> string \<Rightarrow> string"
  progress_percent :: rat
  get_search_list :: "string list \<Rightarrow> pattern list"
  get_real_license_str :: "string \<Rightarrow> (string \<times> string) list \<Rightarrow> string"
  filter_newest :: "string list \<Rightarrow> pk_filter list \<Rightarrow> string list"
  filter_free :: "string list \<Rightarrow> pk_filter list \<Rightarrow> string list"
  get_file_list :: "string \<Rightarrow> string list"
  get_pk_group :: "string \<Rightarrow> string"

text \<open>
  Modelled from the spec: the class \<^verbatim>\<open>PackagekitProgress\<close> of \<^verbatim>\<open>packagekit.progress\<close> is not
  in this file. Iterating it gives the checkpoints it was built from, in order, one for
  each work item.
\<close>

definition progress_iter :: "rat list \<Rightarrow> rat list" where
  "progress_iter steps = steps"

text \<open>
  A call that passes keyword arguments: Python raises \<^verbatim>\<open>TypeError\<close> when a keyword is not
  a parameter of the function called.
\<close>

definition call_kw :: "string list \<Rightarrow> string list \<Rightarrow> 'a \<Rightarrow> exn + 'a" where
  "call_kw params keywords result =
     (if set keywords \<subseteq> set params then Inr result else Inl TypeError)"

text \<open>\<^verbatim>\<open>portage.versions.catsplit\<close> is \<^verbatim>\<open>mydep.split("/", 1)\<close>.\<close>

definition catsplit :: "string \<Rightarrow> string list" where
  "catsplit s =
     (if CHR ''/'' \<in> set s
      then [takeWhile (\<lambda>c. c \<noteq> CHR ''/'') s, tl (dropWhile (\<lambda>c. c \<noteq> CHR ''/'') s)]
      else [s])"

subsection \<open>Helpers of the backend\<close>

text \<open>The loop of \<^verbatim>\<open>_get_all_cp\<close>: \<^verbatim>\<open>if cp not in cp_list: cp_list.append(cp)\<close>.\<close>

fun append_new :: "string list \<Rightarrow> string list \<Rightarrow> string list" where
  "append_new cp_list [] = cp_list"
| "append_new cp_list (cp # cps) =
     append_new (if cp \<notin> set cp_list then cp_list @ [cp] else cp_list) cps"

definition get_all_cp :: "portage \<Rightarrow> pk_filter list \<Rightarrow> string list" where
  "get_all_cp env filters =
     (if FILTER_INSTALLED \<in> set filters then vardb_cp_all env
      else if FILTER_NOT_INSTALLED \<in> set filters then portdb_cp_all env
      else append_new (vardb_cp_all env) (portdb_cp_all env))"

definition get_all_cpv :: "portage \<Rightarrow> string \<Rightarrow> pk_filter list \<Rightarrow> string list" where
  "get_all_cpv env cp filters = porttree_match env cp"

definition get_metadata :: "portage \<Rightarrow> string \<Rightarrow> string list \<Rightarrow> string list" where
  "get_metadata env cpv field_names =
     (case porttree_aux_get env cpv field_names of
        Some values \<Rightarrow> map values field_names
      | None \<Rightarrow> map (\<lambda>_. []) field_names)"

definition is_installed :: "portage \<Rightarrow> string \<Rightarrow> bool" where
  "is_installed env cpv = (vartree_match env cpv \<noteq> [])"

definition cpv_to_id :: "portage \<Rightarrow> string \<Rightarrow> exn + string" where
  "cpv_to_id env cpv =
     (case catsplit (cpv_getkey env cpv) of
        [cat, pn] \<Rightarrow>
          Inr (get_package_id env pn (cpv_getversion env cpv)
                 (case settings_ARCH env of Some a \<Rightarrow> a | None \<Rightarrow> ''amd64'') ''gentoo'')
      | _ \<Rightarrow> Inl ValueError)"

definition package :: "portage \<Rightarrow> string \<Rightarrow> pk_info option \<Rightarrow> run" where
  "package env cpv info =
     (case get_metadata env cpv [''DESCRIPTION''] of
        [] \<Rightarrow> ([], Some IndexError)
      | desc # _ \<Rightarrow>
          (let info' = (case info of
                          Some i \<Rightarrow> i
                        | None \<Rightarrow> if is_installed env cpv then INFO_INSTALLED else INFO_AVAILABLE)
           in case cpv_to_id env cpv of
                Inl e \<Rightarrow> ([], Some e)
              | Inr pid \<Rightarrow> ([Package pid info' desc], None)))"

text \<open>\<^verbatim>\<open>for cpv in cpv_list: self._package(cpv)\<close>\<close>

fun package_all :: "portage \<Rightarrow> string list \<Rightarrow> run" where
  "package_all env [] = ([], None)"
| "package_all env (cpv # cpvs) = then_do (package env cpv None) (package_all env cpvs)"

subsection \<open>search_group\<close>

text \<open>
  \<^verbatim>\<open>
  for group in groups:
      if self._get_pk_group(cp) == group:
          for cpv in self._get_all_cpv(cp, filters):
              self._package(cpv)
  \<close>
\<close>

fun group_cp :: "portage \<Rightarrow> pk_filter list \<Rightarrow> string \<Rightarrow> string list \<Rightarrow> run" where
  "group_cp env filters cp [] = ([], None)"
| "group_cp env filters cp (grp # groups) =
     then_do
       (if get_pk_group env cp = grp then package_all env (get_all_cpv env cp filters)
        else ([], None))
       (group_cp env filters cp groups)"

fun group_loop :: "portage \<Rightarrow> pk_filter list \<Rightarrow> string list \<Rightarrow> (rat \<times> string) list \<Rightarrow> run" where
  "group_loop env filters groups [] = ([], None)"
| "group_loop env filters groups ((percentage, cp) # rest) =
     then_do (group_cp env filters cp groups)
       (then_do ([Percentage percentage], None) (group_loop env filters groups rest))"

definition search_group :: "portage \<Rightarrow> pk_filter list \<Rightarrow> string list \<Rightarrow> run" where
  "search_group env filters groups =
     (let cp_list = get_all_cp env filters;
          progress = progress_iter (compute_equal_steps cp_list)
      in then_do ([Status STATUS_QUERY, AllowCancel True, Percentage (progress_percent env)], None)
           (then_do (group_loop env filters groups (zip progress cp_list))
              ([Percentage 100], None)))"

subsection \<open>search_name\<close>

text \<open>\<^verbatim>\<open>keys_list.index(k)\<close>: the first position of \<open>k\<close>; \<^verbatim>\<open>ValueError\<close> when there is none.\<close>

fun index_of :: "'a \<Rightarrow> 'a list \<Rightarrow> nat option" where
  "index_of x [] = None"
| "index_of x (y # ys) = (if x = y then Some 0 else map_option Suc (index_of x ys))"

text \<open>
  \<^verbatim>\<open>
  for k in keys_list[:]:
      if "/" in k:
          cat, cp = portage.versions.catsplit(k)
          categories.append(cat)
          keys_list[keys_list.index(k)] = cp
  \<close>
  The first argument is what is left of the copy \<^verbatim>\<open>keys_list[:]\<close>.
\<close>

fun split_categories ::
  "string list \<Rightarrow> string list \<Rightarrow> string list \<Rightarrow> exn + (string list \<times> string list)" where
  "split_categories [] categories keys_list = Inr (categories, keys_list)"
| "split_categories (k # ks) categories keys_list =
     (if CHR ''/'' \<in> set k
      then (case catsplit k of
              [cat, cp] \<Rightarrow>
                (case index_of k keys_list of
                   Some i \<Rightarrow> split_categories ks (categories @ [cat]) (keys_list[i := cp])
                 | None \<Rightarrow> Inl ValueError)
            | _ \<Rightarrow> Inl ValueError)
      else split_categories ks categories keys_list)"

text \<open>
  \<^verbatim>\<open>
  found = True
  for s in search_list:
      if not s.search(pkg_name):
          found = False
          break
  \<close>
\<close>

fun all_found :: "pattern list \<Rightarrow> string \<Rightarrow> bool" where
  "all_found [] pkg_name = True"
| "all_found (s # search_list) pkg_name =
     (if \<not> re_search s pkg_name then False else all_found search_list pkg_name)"

text \<open>\<^verbatim>\<open>if category_filter:\<close> holds for a string that is not empty.\<close>

definition truthy :: "string option \<Rightarrow> bool" where
  "truthy v = (case v of None \<Rightarrow> False | Some s \<Rightarrow> s \<noteq> [])"

definition name_body ::
  "portage \<Rightarrow> pk_filter list \<Rightarrow> pattern list \<Rightarrow> string \<Rightarrow> string \<Rightarrow> run" where
  "name_body env filters search_list cp pkg_name =
     (if all_found search_list pkg_name then package_all env (get_all_cpv env cp filters)
      else ([], None))"

fun name_loop ::
  "portage \<Rightarrow> pk_filter list \<Rightarrow> string option \<Rightarrow> pattern list \<Rightarrow> (rat \<times> string) list \<Rightarrow> run" where
  "name_loop env filters category_filter search_list [] = ([], None)"
| "name_loop env filters category_filter search_list ((percentage, cp) # rest) =
     (if truthy category_filter
      then (case catsplit cp of
              [cat, pkg_name] \<Rightarrow>
                if Some cat \<noteq> category_filter
                then name_loop env filters category_filter search_list rest
                else then_do (name_body env filters search_list cp pkg_name)
                       (then_do ([Percentage percentage], None)
                          (name_loop env filters category_filter search_list rest))
            | _ \<Rightarrow> ([], Some ValueError))
      else (case catsplit cp of
              _ # pkg_name # _ \<Rightarrow>
                then_do (name_body env filters search_list cp pkg_name)
                  (then_do ([Percentage percentage], None)
                     (name_loop env filters category_filter search_list rest))
            | _ \<Rightarrow> ([], Some IndexError)))"

definition search_name :: "portage \<Rightarrow> pk_filter list \<Rightarrow> string list \<Rightarrow> run" where
  "search_name env filters keys_list =
     then_do ([Status STATUS_QUERY, AllowCancel True], None)
       (case split_categories keys_list [] keys_list of
          Inl e \<Rightarrow> ([], Some e)
        | Inr (categories, keys_list') \<Rightarrow>
            if 1 < length categories then ([], None)
            else
              (let category_filter = (if length categories = 1 then Some (categories ! 0) else None);
                   search_list = map Substr keys_list';
                   cp_list = get_all_cp env filters;
                   progress = progress_iter (compute_equal_steps cp_list)
               in then_do ([Percentage (progress_percent env)], None)
                    (then_do (name_loop env filters category_filter search_list (zip progress cp_list))
                       ([Percentage 100], None))))"

subsection \<open>search_file\<close>

text \<open>
  \<^verbatim>\<open>
  for f in self._get_file_list(cpv):
      if (is_full_path and key == f) \
              or (not is_full_path and searchre.search(f)):
          self._package(cpv)
          break
  \<close>
  \<open>searchre\<close> is \<^verbatim>\<open>None\<close> while the variable has not been assigned.
\<close>

fun file_hit :: "bool \<Rightarrow> string \<Rightarrow> pattern option \<Rightarrow> string list \<Rightarrow> exn + bool" where
  "file_hit is_full_path key searchre [] = Inr False"
| "file_hit is_full_path key searchre (f # fs) =
     (if is_full_path
      then (if key = f then Inr True else file_hit is_full_path key searchre fs)
      else (case searchre of
              None \<Rightarrow> Inl UnboundLocalError
            | Some re \<Rightarrow>
                if re_search re f then Inr True else file_hit is_full_path key searchre fs))"

fun file_cpvs :: "portage \<Rightarrow> bool \<Rightarrow> string \<Rightarrow> pattern option \<Rightarrow> string list \<Rightarrow> run" where
  "file_cpvs env is_full_path key searchre [] = ([], None)"
| "file_cpvs env is_full_path key searchre (cpv # cpvs) =
     (case file_hit is_full_path key searchre (get_file_list env cpv) of
        Inl e \<Rightarrow> ([], Some e)
      | Inr hit \<Rightarrow>
          then_do (if hit then package env cpv None else ([], None))
            (file_cpvs env is_full_path key searchre cpvs))"

text \<open>
  The loop over the terms. \<open>is_full_path\<close>, \<open>searchre\<close> and \<open>cpv_list\<close> are assigned
  outside the loop and keep their values from one term to the next.
\<close>

fun file_loop ::
  "portage \<Rightarrow> pk_filter list \<Rightarrow> string list \<Rightarrow> bool \<Rightarrow> pattern option \<Rightarrow> (rat \<times> string) list \<Rightarrow> run"
  where
  "file_loop env filters cpv_list is_full_path searchre [] = ([], None)"
| "file_loop env filters cpv_list is_full_path searchre ((percentage, key) # rest) =
     (case key of
        [] \<Rightarrow> ([], Some IndexError)
      | c # _ \<Rightarrow>
          (let is_full_path' = (if c \<noteq> CHR ''/'' then False else is_full_path);
               key' = (if c \<noteq> CHR ''/'' then re_escape key else key);
               searchre' = (if c \<noteq> CHR ''/'' then Some (PathEnd key) else searchre);
               cpv_list' = filter_free env cpv_list filters
           in then_do (file_cpvs env is_full_path' key' searchre' cpv_list')
                (then_do ([Percentage percentage], None)
                   (file_loop env filters cpv_list' is_full_path' searchre' rest))))"

definition search_file :: "portage \<Rightarrow> pk_filter list \<Rightarrow> string list \<Rightarrow> run" where
  "search_file env filters vals =
     then_do ([Status STATUS_QUERY, AllowCancel True], None)
       (if FILTER_NOT_INSTALLED \<in> set filters
        then ([Error ERROR_CANNOT_GET_FILELIST
                 ''search-file isn't available with ~installed filter''], None)
        else
          (let cpv_list = vardb_cpv_all env;
               progress = progress_iter (compute_equal_steps vals)
           in then_do ([Percentage (progress_percent env)], None)
                (then_do (file_loop env filters cpv_list True None (zip progress vals))
                   ([Percentage 100], None))))"

subsection \<open>search_details\<close>

definition details_fields :: "string list" where
  "details_fields =
     [''DESCRIPTION'', ''HOMEPAGE'', ''IUSE'', ''LICENSE'', ''repository'', ''SLOT'', ''EAPI'',
      ''KEYWORDS'']"

text \<open>\<^verbatim>\<open>metadata[k] = v\<close> on a dict kept as the list of its items.\<close>

fun dict_set :: "(string \<times> string) list \<Rightarrow> string \<Rightarrow> string \<Rightarrow> (string \<times> string) list" where
  "dict_set [] k v = [(k, v)]"
| "dict_set ((k', v') # m) k v = (if k' = k then (k, v) # m else (k', v') # dict_set m k v)"

text \<open>
  \<^verbatim>\<open>
  for s in search_list:
      found = False
      for x in metadata:
          if s.search(metadata[x]):
              found = True
              break
      if not found:
          match = False
          break
  \<close>
\<close>

fun found_in :: "pattern \<Rightarrow> (string \<times> string) list \<Rightarrow> bool" where
  "found_in s [] = False"
| "found_in s ((x, v) # metadata) = (if re_search s v then True else found_in s metadata)"

fun details_match :: "pattern list \<Rightarrow> (string \<times> string) list \<Rightarrow> bool" where
  "details_match [] metadata = True"
| "details_match (s # search_list) metadata =
     (if \<not> found_in s metadata then False else details_match search_list metadata)"

text \<open>
  The loop over the versions of one group. \<^verbatim>\<open>_get_metadata\<close> is called with the keyword
  \<^verbatim>\<open>in_dict\<close>, which its definition \<^verbatim>\<open>def _get_metadata(self, cpv, fields)\<close> does not have.
  The branch after the call is written as the source has it, reading the result as the
  dict from field to value that lines 98 and 102 subscript.
\<close>

fun details_cpvs :: "portage \<Rightarrow> pattern list \<Rightarrow> string list \<Rightarrow> exn + string list" where
  "details_cpvs env search_list [] = Inr []"
| "details_cpvs env search_list (cpv # cpvs) =
     (case call_kw [''cpv'', ''fields''] [''in_dict''] (get_metadata env cpv details_fields) of
        Inl e \<Rightarrow> Inl e
      | Inr vals \<Rightarrow>
          (let metadata0 = zip details_fields vals;
               metadata = dict_set metadata0 ''LICENSE'' (get_real_license_str env cpv metadata0)
           in case details_cpvs env search_list cpvs of
                Inl e \<Rightarrow> Inl e
              | Inr cpv_list \<Rightarrow>
                  Inr (if details_match search_list metadata then cpv # cpv_list else cpv_list)))"

text \<open>
  The loop over the groups. \<^verbatim>\<open>_get_all_cpv\<close> is called with the keyword \<^verbatim>\<open>filter_newest\<close>,
  which its definition \<^verbatim>\<open>def _get_all_cpv(self, cp, filters)\<close> does not have.
\<close>

fun details_loop ::
  "portage \<Rightarrow> pk_filter list \<Rightarrow> pattern list \<Rightarrow> (rat \<times> string) list \<Rightarrow> run" where
  "details_loop env filters search_list [] = ([], None)"
| "details_loop env filters search_list ((percentage, cp) # rest) =
     (case call_kw [''cp'', ''filters''] [''filter_newest''] (get_all_cpv env cp filters) of
        Inl e \<Rightarrow> ([], Some e)
      | Inr cpvs \<Rightarrow>
          (case details_cpvs env search_list cpvs of
             Inl e \<Rightarrow> ([], Some e)
           | Inr cpv_list \<Rightarrow>
               then_do (package_all env (filter_newest env cpv_list filters))
                 (then_do ([Percentage percentage], None)
                    (details_loop env filters search_list rest))))"

definition search_details :: "portage \<Rightarrow> pk_filter list \<Rightarrow> string list \<Rightarrow> run" where
  "search_details env filters keys =
     (let cp_list = get_all_cp env filters;
          search_list = get_search_list env keys;
          progress = progress_iter (compute_equal_steps cp_list)
      in then_do ([Status STATUS_QUERY, AllowCancel True, Percentage (progress_percent env)], None)
           (then_do (details_loop env filters search_list (zip progress cp_list))
              ([Percentage 100], None)))"

subsection \<open>Notions used in the statements\<close>

text \<open>
  A version string is well formed when portage resolves it to a key \<^verbatim>\<open>category/name\<close>.
  \<open>package_event\<close> is the package that \<^verbatim>\<open>_package(cpv)\<close> emits for such a version: its
  identifier, its classification by the installed view, and its description.
\<close>

definition wf_cpv :: "portage \<Rightarrow> string \<Rightarrow> bool" where
  "wf_cpv env cpv = (CHR ''/'' \<in> set (cpv_getkey env cpv))"

definition package_event :: "portage \<Rightarrow> string \<Rightarrow> event" where
  "package_event env cpv =
     Package
       (get_package_id env (catsplit (cpv_getkey env cpv) ! 1) (cpv_getversion env cpv)
          (case settings_ARCH env of Some a \<Rightarrow> a | None \<Rightarrow> ''amd64'') ''gentoo'')
       (if is_installed env cpv then INFO_INSTALLED else INFO_AVAILABLE)
       (get_metadata env cpv [''DESCRIPTION''] ! 0)"

text \<open>What the group search emits for one candidate group when every version is well formed.\<close>

definition group_events :: "portage \<Rightarrow> string \<Rightarrow> string list \<Rightarrow> event list" where
  "group_events env cp groups =
     concat (map (\<lambda>g. if get_pk_group env cp = g
                       then map (package_event env) (porttree_match env cp) else []) groups)"

text \<open>
  The two parts of a term or group \<^verbatim>\<open>category/name\<close>: what is before the first \<^verbatim>\<open>/\<close>, and
  what is after it (the whole text when it has no \<^verbatim>\<open>/\<close>). \<open>name_events\<close> is what the name
  search emits for one candidate group that it does not skip, when every version is well
  formed.
\<close>

definition category_of :: "string \<Rightarrow> string" where
  "category_of k = takeWhile (\<lambda>c. c \<noteq> CHR ''/'') k"

definition bare_name :: "string \<Rightarrow> string" where
  "bare_name k = (if CHR ''/'' \<in> set k then tl (dropWhile (\<lambda>c. c \<noteq> CHR ''/'') k) else k)"

definition name_events :: "portage \<Rightarrow> pattern list \<Rightarrow> string \<Rightarrow> event list" where
  "name_events env search_list cp =
     (if all_found search_list (bare_name cp) then map (package_event env) (porttree_match env cp)
      else [])"





subsection \<open>A small database\<close>

text \<open>
  The database of the scenario in the specification: the group \<^verbatim>\<open>app-text/foo\<close> is installed,
  the group \<^verbatim>\<open>app-text/bar\<close> is in the repository only, and both are classified \<^verbatim>\<open>text\<close>.
  The metadata of \<^verbatim>\<open>app-text/bar-2.0\<close> cannot be read.
\<close>

definition sample_db :: portage where
  "sample_db =
     \<lparr> vardb_cp_all = [''app-text/foo''],
       vardb_cpv_all = [''app-text/foo-1.0''],
       portdb_cp_all = [''app-text/foo'', ''app-text/bar''],
       porttree_match = (\<lambda>cp. if cp = ''app-text/foo'' then [''app-text/foo-1.0'']
                               else if cp = ''app-text/bar'' then [''app-text/bar-2.0''] else []),
       porttree_aux_get = (\<lambda>cpv fs. if cpv = ''app-text/foo-1.0''
                                     then Some (\<lambda>f. if f = ''DESCRIPTION'' then ''Foo'' else [])
                                     else None),
       vartree_match = (\<lambda>a. if a = ''app-text/foo-1.0'' \<or> a = ''app-text/foo''
                              then [''app-text/foo-1.0''] else []),
       cpv_getkey = (\<lambda>cpv. if cpv = ''app-text/foo-1.0'' then ''app-text/foo'' else ''app-text/bar''),
       cpv_getversion = (\<lambda>cpv. if cpv = ''app-text/foo-1.0'' then ''1.0'' else ''2.0''),
       settings_ARCH = None,
       get_package_id = (\<lambda>n v a d. n @ '';'' @ v @ '';'' @ a @ '';'' @ d),
       progress_percent = 0,
       get_search_list = map Substr,
       get_real_license_str = (\<lambda>cpv m. ''GPL-2''),
       filter_newest = (\<lambda>cpvs fs. cpvs),
       filter_free = (\<lambda>cpvs fs. cpvs),
       get_file_list = (\<lambda>cpv. [''/usr/bin/foo'', ''/usr/lib/foo.so'']),
       get_pk_group = (\<lambda>cp. ''text'') \<rparr>"

section \<open>Properties\<close>

subsection \<open>Sequencing and the progress steps\<close>

lemma then_do_simps [simp]:
  "then_do (evs, None) b = (evs @ fst b, snd b)"
  "then_do (evs, Some e) b = (evs, Some e)"
  by (simp_all add: then_do_def)

lemma length_compute_equal_steps [simp]:
  "length (compute_equal_steps xs) = length xs"
  by (simp add: compute_equal_steps_def del: upt_Suc)

subsection \<open>Rounding\<close>

lemma rhe_cases: "round_half_even q = \<lfloor>q\<rfloor> \<or> round_half_even q = \<lfloor>q\<rfloor> + 1"
  by (simp add: round_half_even_def Let_def)

lemma rhe_ge_int: "of_int n \<le> q \<Longrightarrow> n \<le> round_half_even q"
proof -
  assume "of_int n \<le> q"
  then have "n \<le> \<lfloor>q\<rfloor>" by (simp add: le_floor_iff)
  then show ?thesis using rhe_cases [of q] by auto
qed

lemma rhe_le_int: "q \<le> of_int n \<Longrightarrow> round_half_even q \<le> n"
proof -
  assume h: "q \<le> of_int n"
  show ?thesis
  proof (cases "q = of_int n")
    case True
    then show ?thesis by (simp add: round_half_even_def)
  next
    case False
    with h have "q < of_int n" by simp
    then have "\<lfloor>q\<rfloor> < n" by (simp add: floor_less_iff)
    then show ?thesis using rhe_cases [of q] by auto
  qed
qed

lemma rhe_mono: "a \<le> b \<Longrightarrow> round_half_even a \<le> round_half_even b"
proof -
  assume h: "a \<le> b"
  then have fl: "\<lfloor>a\<rfloor> \<le> \<lfloor>b\<rfloor>" by (rule floor_mono)
  show ?thesis
  proof (cases "\<lfloor>a\<rfloor> = \<lfloor>b\<rfloor>")
    case True
    then have "a - of_int \<lfloor>a\<rfloor> \<le> b - of_int \<lfloor>b\<rfloor>" using h by simp
    then show ?thesis using True
      by (auto simp: round_half_even_def Let_def)
  next
    case False
    with fl have "\<lfloor>a\<rfloor> + 1 \<le> \<lfloor>b\<rfloor>" by simp
    then show ?thesis using rhe_cases [of a] rhe_cases [of b] by auto
  qed
qed

lemma ilog2_bounds:
  assumes "0 < x"
  shows "2 powi (ilog2 x) \<le> x \<and> x < 2 powi (ilog2 x + 1)"
proof -
  obtain p q where pq: "quotient_of x = (p, q)" by (cases "quotient_of x")
  then have q: "0 < q" by (rule quotient_of_denom_pos)
  have x: "x = of_int p / of_int q" using pq by (rule quotient_of_div)
  have p: "0 < p" using assms q x by (simp add: zero_less_divide_iff)
  define bp where "bp = nat (bitlen p)"
  define bq where "bq = nat (bitlen q)"
  have bpi: "bitlen p = int bp" and bqi: "bitlen q = int bq"
    by (simp_all add: bp_def bq_def bitlen_nonneg)
  have bp1: "1 \<le> bp" and bq1: "1 \<le> bq"
    using p q bitlen_eq_zero_iff [of p] bitlen_eq_zero_iff [of q] bitlen_nonneg [of p] bitlen_nonneg [of q]
    by (auto simp: bp_def bq_def)
  have pb: "2 ^ (bp - 1) \<le> p" "p < 2 ^ bp"
    using bitlen_bounds [OF p] bp1 by (simp_all add: bp_def nat_diff_distrib)
  have qb: "2 ^ (bq - 1) \<le> q" "q < 2 ^ bq"
    using bitlen_bounds [OF q] bq1 by (simp_all add: bq_def nat_diff_distrib)
  have pbr: "(2::rat) ^ (bp - 1) \<le> of_int p" "(of_int p :: rat) < 2 ^ bp"
    using pb by (metis of_int_le_iff of_int_numeral of_int_power, metis of_int_less_iff of_int_numeral of_int_power)
  have qbr: "(2::rat) ^ (bq - 1) \<le> of_int q" "(of_int q :: rat) < 2 ^ bq"
    using qb by (metis of_int_le_iff of_int_numeral of_int_power, metis of_int_less_iff of_int_numeral of_int_power)
  have qpos: "(0::rat) < of_int q" using q by simp
  have ppos: "(0::rat) < of_int p" using p by simp
  define e where "e = int bp - int bq"
  have up: "x < 2 powi (e + 1)"
  proof -
    have "2 powi (e + 1) = (2::rat) ^ bp / 2 ^ (bq - 1)"
    proof -
      have "e + 1 = int bp - int (bq - 1)" using bq1 by (simp add: e_def)
      then show ?thesis by (simp add: power_int_diff)
    qed
    moreover have "x < (2::rat) ^ bp / 2 ^ (bq - 1)"
      unfolding x using pbr qbr qpos ppos
      by (intro frac_less) auto
    ultimately show ?thesis by simp
  qed
  have lo: "2 powi (e - 1) \<le> x"
  proof -
    have "2 powi (e - 1) = (2::rat) ^ (bp - 1) / 2 ^ bq"
    proof -
      have "e - 1 = int (bp - 1) - int bq" using bp1 by (simp add: e_def)
      then show ?thesis by (simp add: power_int_diff)
    qed
    moreover have "(2::rat) ^ (bp - 1) / 2 ^ bq \<le> x"
      unfolding x using pbr qbr qpos ppos
      by (intro frac_le) auto
    ultimately show ?thesis by simp
  qed
  have il: "ilog2 x = (if 2 powi e \<le> x then e else e - 1)"
    by (simp add: ilog2_def pq bpi bqi e_def)
  show ?thesis using up lo by (auto simp: il)
qed

lemma binary64_bounds:
  assumes "0 < x"
  shows "2 powi (ilog2 x) \<le> binary64 x \<and> binary64 x \<le> 2 powi (ilog2 x + 1)"
proof -
  define u :: rat where "u = 2 powi (ilog2 x - 52)"
  have u: "0 < u" by (simp add: u_def)
  have b: "binary64 x = of_int (round_half_even (x / u)) * u"
    using assms by (simp add: binary64_def u_def Let_def)
  have e1: "2 powi (ilog2 x) = (2::rat) ^ 52 * u"
  proof -
    have "ilog2 x = 52 + (ilog2 x - 52)" by simp
    then have "(2::rat) powi (ilog2 x) = 2 powi 52 * 2 powi (ilog2 x - 52)"
      by (metis power_int_add zero_neq_numeral)
    then show ?thesis by (simp add: u_def)
  qed
  have e2: "2 powi (ilog2 x + 1) = (2::rat) ^ 53 * u"
  proof -
    have "ilog2 x + 1 = 53 + (ilog2 x - 52)" by simp
    then have "(2::rat) powi (ilog2 x + 1) = 2 powi 53 * 2 powi (ilog2 x - 52)"
      by (metis power_int_add zero_neq_numeral)
    then show ?thesis by (simp add: u_def)
  qed
  have lo: "of_int (2 ^ 52) \<le> x / u"
    using ilog2_bounds [OF assms] u by (simp add: e1 pos_le_divide_eq)
  have hi: "x / u \<le> of_int (2 ^ 53)"
    using ilog2_bounds [OF assms] u by (simp add: e2 pos_divide_le_eq)
  have "2 ^ 52 \<le> round_half_even (x / u)" using lo by (rule rhe_ge_int)
  then have "(of_int (2 ^ 52) :: rat) \<le> of_int (round_half_even (x / u))" by (simp only: of_int_le_iff)
  then have A: "(2::rat) ^ 52 * u \<le> of_int (round_half_even (x / u)) * u"
    using u by simp
  have "round_half_even (x / u) \<le> 2 ^ 53" using hi by (rule rhe_le_int)
  then have "(of_int (round_half_even (x / u)) :: rat) \<le> of_int (2 ^ 53)" by (simp only: of_int_le_iff)
  then have B: "of_int (round_half_even (x / u)) * u \<le> (2::rat) ^ 53 * u"
    using u by simp
  show ?thesis using A B by (simp only: b e1 e2)
qed

lemma binary64_mono_pos:
  assumes "0 < x" "x \<le> y"
  shows "binary64 x \<le> binary64 y"
proof -
  have y: "0 < y" using assms by simp
  consider "ilog2 x = ilog2 y" | "ilog2 x < ilog2 y" | "ilog2 y < ilog2 x" by linarith
  then show ?thesis
  proof cases
    case 1
    define u :: rat where "u = 2 powi (ilog2 x - 52)"
    have u: "0 < u" by (simp add: u_def)
    have "x / u \<le> y / u" using assms u by (simp add: divide_right_mono)
    then have "round_half_even (x / u) \<le> round_half_even (y / u)" by (rule rhe_mono)
    then have "(of_int (round_half_even (x / u)) :: rat) * u \<le> of_int (round_half_even (y / u)) * u"
      using u by simp
    then show ?thesis using assms y 1 by (simp add: binary64_def u_def Let_def)
  next
    case 2
    then have "ilog2 x + 1 \<le> ilog2 y" by simp
    then have "(2::rat) powi (ilog2 x + 1) \<le> 2 powi (ilog2 y)"
      by (intro power_int_increasing) auto
    then show ?thesis using binary64_bounds [OF assms(1)] binary64_bounds [OF y] by linarith
  next
    case 3
    then have "ilog2 y + 1 \<le> ilog2 x" by simp
    then have "(2::rat) powi (ilog2 y + 1) \<le> 2 powi (ilog2 x)"
      by (intro power_int_increasing) auto
    then have False using ilog2_bounds [OF assms(1)] ilog2_bounds [OF y] assms(2) by linarith
    then show ?thesis ..
  qed
qed

lemma binary64_nonneg: "0 \<le> x \<Longrightarrow> 0 \<le> binary64 x"
proof (cases "x = 0")
  case True
  then show ?thesis by (simp add: binary64_def)
next
  case False
  assume "0 \<le> x"
  with False have x: "0 < x" by simp
  have "(0::rat) < 2 powi (ilog2 x)" by simp
  then show ?thesis using binary64_bounds [OF x] by linarith
qed

lemma binary64_mono: "0 \<le> x \<Longrightarrow> x \<le> y \<Longrightarrow> binary64 x \<le> binary64 y"
  by (cases "x = 0") (auto simp: binary64_nonneg binary64_mono_pos binary64_def [of 0])

lemma float_steps_mono:
  assumes "i \<le> j" "0 \<le> c"
  shows "float_mul (float_of_int i) c \<le> float_mul (float_of_int j) c"
proof -
  have a: "float_of_int i \<le> float_of_int j"
    unfolding float_of_int_def using assms(1) by (intro binary64_mono) auto
  have b: "0 \<le> float_of_int i"
    unfolding float_of_int_def by (intro binary64_nonneg) auto
  have "float_of_int i * c \<le> float_of_int j * c"
    using a assms(2) by (rule mult_right_mono)
  moreover have "0 \<le> float_of_int i * c" using b assms(2) by simp
  ultimately show ?thesis unfolding float_mul_def by (intro binary64_mono)
qed

lemma float_div_nonneg: "0 \<le> float_div 100 (float_of_int n)"
  unfolding float_div_def float_of_int_def
  by (intro binary64_nonneg divide_nonneg_nonneg) auto

lemma compute_equal_steps_nth:
  "i < length xs \<Longrightarrow>
   compute_equal_steps xs ! i =
     float_mul (float_of_int (i + 1)) (float_div 100 (float_of_int (length xs)))"
  by (auto simp: compute_equal_steps_def simp del: upt_Suc)

lemma compute_equal_steps_sorted: "sorted (compute_equal_steps xs)"
proof -
  have "compute_equal_steps xs ! i \<le> compute_equal_steps xs ! j"
    if "i \<le> j" "j < length (compute_equal_steps xs)" for i j
  proof -
    have "j < length xs" "i < length xs" using that by simp_all
    then show ?thesis
      using that(1) by (simp add: compute_equal_steps_nth float_steps_mono float_div_nonneg)
  qed
  then show ?thesis by (simp add: sorted_iff_nth_mono)
qed

lemma float_product_11:
  "float_mul (float_of_int 11) (float_div 100 (float_of_int 11)) = 100 + 1 / 2 ^ 46"
  by code_simp

lemma float_product_3: "float_mul (float_of_int 3) (float_div 100 (float_of_int 3)) = 100"
  by code_simp


lemma rhe_error: "\<bar>of_int (round_half_even q) - q\<bar> \<le> 1 / 2"
proof -
  have "of_int \<lfloor>q\<rfloor> \<le> q" "q < of_int \<lfloor>q\<rfloor> + 1" by linarith+
  then show ?thesis
    by (auto simp: round_half_even_def Let_def abs_le_iff)
qed

lemma binary64_error:
  assumes "0 < x"
  shows "\<bar>binary64 x - x\<bar> \<le> x / 2 ^ 53"
proof -
  define u :: rat where "u = 2 powi (ilog2 x - 52)"
  have u: "0 < u" by (simp add: u_def)
  have b: "binary64 x = of_int (round_half_even (x / u)) * u"
    using assms by (simp add: binary64_def u_def Let_def)
  have e1: "2 powi (ilog2 x) = (2::rat) ^ 52 * u"
  proof -
    have "ilog2 x = 52 + (ilog2 x - 52)" by simp
    then have "(2::rat) powi (ilog2 x) = 2 powi 52 * 2 powi (ilog2 x - 52)"
      by (metis power_int_add zero_neq_numeral)
    then show ?thesis by (simp add: u_def)
  qed
  have ux: "2 ^ 52 * u \<le> x" using ilog2_bounds [OF assms] by (simp add: e1)
  have "binary64 x - x = (of_int (round_half_even (x / u)) - x / u) * u"
    using u by (simp add: b field_simps)
  then have "\<bar>binary64 x - x\<bar> = \<bar>of_int (round_half_even (x / u)) - x / u\<bar> * u"
    using u by (simp add: abs_mult)
  also have "\<dots> \<le> (1 / 2) * u"
    using rhe_error [of "x / u"] u by (intro mult_right_mono) auto
  also have "\<dots> \<le> x / 2 ^ 53" using ux by simp
  finally show ?thesis .
qed

lemma float_bound_lo: "binary64 (100 - 100 / 2 ^ 53) = 100 - 1 / 2 ^ 46"
  by code_simp

lemma float_bound_hi: "binary64 (100 + 100 / 2 ^ 53) = 100 + 1 / 2 ^ 46"
  by code_simp

lemma float_product_near_100:
  assumes "0 < n"
  shows "100 - 1 / 2 ^ 46 \<le> float_mul (float_of_int n) (float_div 100 (float_of_int n))
         \<and> float_mul (float_of_int n) (float_div 100 (float_of_int n)) \<le> 100 + 1 / 2 ^ 46"
proof -
  define m where "m = float_of_int n"
  have "(0::rat) < of_nat n" using assms by simp
  then have "2 powi (ilog2 (of_nat n)) \<le> binary64 (of_nat n)"
    using binary64_bounds [of "of_nat n"] by simp
  moreover have "(0::rat) < 2 powi (ilog2 (of_nat n))" by simp
  ultimately have m: "0 < m" unfolding m_def float_of_int_def by linarith
  define q where "q = 100 / m"
  have q: "0 < q" using m by (simp add: q_def)
  define c where "c = float_div 100 m"
  have "\<bar>c - q\<bar> \<le> q / 2 ^ 53"
    unfolding c_def float_div_def q_def [symmetric] using q by (rule binary64_error)
  then have "m * \<bar>c - q\<bar> \<le> m * (q / 2 ^ 53)" using m by (intro mult_left_mono) auto
  moreover have "m * \<bar>c - q\<bar> = \<bar>m * c - 100\<bar>"
  proof -
    have "m * \<bar>c - q\<bar> = \<bar>m * (c - q)\<bar>" using m by (simp add: abs_mult)
    also have "m * (c - q) = m * c - 100" using m by (simp add: q_def field_simps)
    finally show ?thesis .
  qed
  moreover have "m * (q / 2 ^ 53) = 100 / 2 ^ 53" using m by (simp add: q_def)
  ultimately have e0: "\<bar>m * c - 100\<bar> \<le> 100 / 2 ^ 53" by simp
  define d :: rat where "d = 100 / 2 ^ 53"
  have e: "\<bar>m * c - 100\<bar> \<le> d" using e0 by (simp only: d_def)
  have d: "0 \<le> 100 - d" by (simp add: d_def)
  have lo: "100 - d \<le> m * c" and hi: "m * c \<le> 100 + d"
    using e by linarith+
  have "binary64 (100 - d) \<le> binary64 (m * c)"
    using d lo by (rule binary64_mono)
  moreover have "binary64 (m * c) \<le> binary64 (100 + d)"
  proof -
    have "0 \<le> m * c" using lo d by linarith
    then show ?thesis using hi by (rule binary64_mono)
  qed
  moreover have "binary64 (100 - d) = 100 - 1 / 2 ^ 46" "binary64 (100 + d) = 100 + 1 / 2 ^ 46"
    unfolding d_def by (rule float_bound_lo, rule float_bound_hi)
  ultimately show ?thesis
    by (simp only: float_mul_def m_def c_def)
qed

lemma compute_equal_steps_last:
  assumes "xs \<noteq> []"
  shows "last (compute_equal_steps xs) =
         float_mul (float_of_int (length xs)) (float_div 100 (float_of_int (length xs)))"
proof -
  have l: "0 < length xs" using assms by simp
  have "compute_equal_steps xs \<noteq> []"
    using length_compute_equal_steps [of xs] assms
    by (auto simp del: length_compute_equal_steps)
  then have "last (compute_equal_steps xs) =
             compute_equal_steps xs ! (length (compute_equal_steps xs) - 1)"
    by (rule last_conv_nth)
  also have "\<dots> = compute_equal_steps xs ! (length xs - 1)" by simp
  also have "\<dots> = float_mul (float_of_int (length xs - 1 + 1))
                      (float_div 100 (float_of_int (length xs)))"
    using l by (intro compute_equal_steps_nth) simp
  also have "length xs - 1 + 1 = length xs" using l by simp
  finally show ?thesis .
qed

subsection \<open>The progress steps\<close>

text \<open>
  C8, as the claim states it: the last step is exactly 100. With eleven items the last step
  is \<^verbatim>\<open>11 * (100.0 / 11)\<close>, which is 100.00000000000001.
\<close>

theorem compute_equal_steps_last_counterexample:
  "last (compute_equal_steps (replicate 11 ())) \<noteq> 100"
proof -
  define steps where "steps = compute_equal_steps (replicate 11 ())"
  have l: "length steps = 11" by (simp add: steps_def)
  then have "steps \<noteq> []" by auto
  then have "last steps = steps ! (length steps - 1)" by (rule last_conv_nth)
  then have "last steps = steps ! 10" by (simp add: l)
  also have "\<dots> = float_mul (float_of_int (10 + 1)) (float_div 100 (float_of_int 11))"
    using compute_equal_steps_nth [of 10 "replicate 11 ()"] by (simp add: steps_def)
  finally show ?thesis by (simp add: float_product_11 steps_def)
qed

text \<open>
  C8, amended. For every list of \<open>n\<close> items \<^verbatim>\<open>compute_equal_steps\<close> returns \<open>n\<close> steps; step
  \<open>i\<close> (from 0) is the float product of \<open>i + 1\<close> and the float quotient \<^verbatim>\<open>100.0 / n\<close>; the steps
  never decrease; the last step is within \<open>2^-46\<close>, one unit in the last place, of 100; and
  for no item the result is empty.
\<close>

theorem compute_equal_steps_shape:
  "length (compute_equal_steps xs) = length xs
   \<and> (\<forall>i < length xs.
         compute_equal_steps xs ! i =
           float_mul (float_of_int (i + 1)) (float_div 100 (float_of_int (length xs))))
   \<and> sorted (compute_equal_steps xs)
   \<and> (xs \<noteq> [] \<longrightarrow>
         100 - 1 / 2 ^ 46 \<le> last (compute_equal_steps xs)
         \<and> last (compute_equal_steps xs) \<le> 100 + 1 / 2 ^ 46)
   \<and> (xs = [] \<longrightarrow> compute_equal_steps xs = [])"
proof -
  have "100 - 1 / 2 ^ 46 \<le> last (compute_equal_steps xs)
        \<and> last (compute_equal_steps xs) \<le> 100 + 1 / 2 ^ 46" if "xs \<noteq> []"
  proof -
    have "0 < length xs" using that by simp
    then show ?thesis
      using float_product_near_100 [of "length xs"]
      by (simp only: compute_equal_steps_last [OF that])
  qed
  moreover have "compute_equal_steps ([] :: 'a list) = []"
    by (simp add: compute_equal_steps_def)
  ultimately show ?thesis
    using compute_equal_steps_nth [of _ xs] compute_equal_steps_sorted [of xs]
    by auto
qed

theorem compute_equal_steps_shape_witness:
  "(2::nat) < length [(), (), ()]
   \<and> compute_equal_steps [(), (), ()] ! 2 = 100
   \<and> [(), (), ()] \<noteq> []
   \<and> last (compute_equal_steps [(), (), ()]) \<le> 100 + 1 / 2 ^ 46
   \<and> compute_equal_steps ([] :: unit list) = []"
proof -
  have l: "length [(), (), ()] = (3::nat)" by simp
  have "\<forall>i<3. compute_equal_steps [(), (), ()] ! i =
          float_mul (float_of_int (i + 1)) (float_div 100 (float_of_int 3))"
    using compute_equal_steps_shape [of "[(), (), ()]"] unfolding l by blast
  then have "compute_equal_steps [(), (), ()] ! 2 =
          float_mul (float_of_int (2 + 1)) (float_div 100 (float_of_int 3))"
    by (simp del: One_nat_def)
  then have a: "compute_equal_steps [(), (), ()] ! 2 = 100"
    by (simp add: float_product_3)
  have b: "compute_equal_steps ([] :: unit list) = []"
    using compute_equal_steps_shape [of "[] :: unit list"] by simp
  have c: "last (compute_equal_steps [(), (), ()]) \<le> 100 + 1 / 2 ^ 46"
    using compute_equal_steps_shape [of "[(), (), ()]"] by blast
  show ?thesis using a b c by simp
qed

subsection \<open>Version expansion\<close>

text \<open>
  C10. For every group and any two filter sets, \<^verbatim>\<open>_get_all_cpv\<close> returns the same list of
  versions: the result does not depend on the filters and is what the repository tree
  matches for the group.
\<close>

theorem get_all_cpv_ignores_filters:
  "get_all_cpv env cp filters1 = get_all_cpv env cp filters2
   \<and> get_all_cpv env cp filters1 = porttree_match env cp"
  by (simp add: get_all_cpv_def)

subsection \<open>File search with the not-installed filter\<close>

text \<open>
  C9. When the filter set of a file search contains NOT\_INSTALLED, the driver sets the
  status, allows cancelling, reports the one error "cannot get file list" and returns: no
  package, no percentage, and nothing of the database is read.
\<close>

theorem search_file_not_installed:
  "FILTER_NOT_INSTALLED \<in> set filters \<Longrightarrow>
   search_file env filters vals =
     ([Status STATUS_QUERY, AllowCancel True,
       Error ERROR_CANNOT_GET_FILELIST ''search-file isn't available with ~installed filter''],
      None)"
  by (simp add: search_file_def)

theorem search_file_not_installed_witness:
  "FILTER_NOT_INSTALLED \<in> set [FILTER_NOT_INSTALLED]
   \<and> search_file sample_db [FILTER_NOT_INSTALLED] [''/usr/bin/x''] =
     ([Status STATUS_QUERY, AllowCancel True,
       Error ERROR_CANNOT_GET_FILELIST ''search-file isn't available with ~installed filter''],
      None)"
  using search_file_not_installed [of "[FILTER_NOT_INSTALLED]" sample_db "[''/usr/bin/x'']"]
  by simp

subsection \<open>Candidate groups\<close>

lemma remdups_snoc:
  "remdups (xs @ [y]) = filter (\<lambda>x. x \<noteq> y) (remdups xs) @ [y]"
  by (induction xs) auto

lemma first_occurrences_Cons:
  "rev (remdups (rev (y # ys))) = y # filter (\<lambda>x. x \<noteq> y) (rev (remdups (rev ys)))"
  by (simp add: remdups_snoc rev_filter)

lemma append_new_eq:
  "append_new xs ys = xs @ filter (\<lambda>y. y \<notin> set xs) (rev (remdups (rev ys)))"
proof (induction ys arbitrary: xs)
  case Nil
  then show ?case by simp
next
  case (Cons y ys)
  show ?case
  proof (cases "y \<in> set xs")
    case True
    have "filter (\<lambda>z. z \<notin> set xs) (filter (\<lambda>x. x \<noteq> y) (rev (remdups (rev ys)))) =
          filter (\<lambda>z. z \<notin> set xs) (rev (remdups (rev ys)))"
      using True by (auto simp: filter_filter intro!: filter_cong)
    then show ?thesis
      using True Cons.IH [of xs] by (simp only: first_occurrences_Cons) simp
  next
    case False
    have "filter (\<lambda>z. z \<notin> set (xs @ [y])) (rev (remdups (rev ys))) =
          filter (\<lambda>z. z \<notin> set xs) (filter (\<lambda>x. x \<noteq> y) (rev (remdups (rev ys))))"
      by (auto simp: filter_filter intro!: filter_cong)
    then show ?thesis
      using False Cons.IH [of "xs @ [y]"] by (simp only: first_occurrences_Cons) simp
  qed
qed

text \<open>
  C5, as the claim states it: without a filter the result is a union without duplicates.
  The installed list is returned as the installed view gives it, so a group listed twice
  there is twice in the result.
\<close>

theorem get_all_cp_duplicates_counterexample:
  "\<not> distinct (get_all_cp (sample_db\<lparr>vardb_cp_all := [''a/x'', ''a/x'']\<rparr>) [])"
  by (simp add: get_all_cp_def sample_db_def)

text \<open>
  C5, amended. \<^verbatim>\<open>_get_all_cp\<close> returns the installed list when INSTALLED is present; the
  repository list when NOT\_INSTALLED is present and INSTALLED is not; otherwise the
  installed list as it is, followed by the repository groups that are not installed, each
  once, in the order of their first occurrence in the repository list. The groups of the
  result are those of both lists, and the result has no duplicate exactly when the
  installed list has none.
\<close>

theorem get_all_cp_cases:
  "(FILTER_INSTALLED \<in> set filters \<longrightarrow> get_all_cp env filters = vardb_cp_all env)
   \<and> (FILTER_INSTALLED \<notin> set filters \<and> FILTER_NOT_INSTALLED \<in> set filters \<longrightarrow>
        get_all_cp env filters = portdb_cp_all env)
   \<and> (FILTER_INSTALLED \<notin> set filters \<and> FILTER_NOT_INSTALLED \<notin> set filters \<longrightarrow>
        get_all_cp env filters =
          vardb_cp_all env
          @ filter (\<lambda>cp. cp \<notin> set (vardb_cp_all env)) (rev (remdups (rev (portdb_cp_all env))))
        \<and> distinct (filter (\<lambda>cp. cp \<notin> set (vardb_cp_all env))
                       (rev (remdups (rev (portdb_cp_all env)))))
        \<and> set (get_all_cp env filters) = set (vardb_cp_all env) \<union> set (portdb_cp_all env)
        \<and> (distinct (get_all_cp env filters) \<longleftrightarrow> distinct (vardb_cp_all env)))"
proof -
  define rest where
    "rest = filter (\<lambda>cp. cp \<notin> set (vardb_cp_all env)) (rev (remdups (rev (portdb_cp_all env))))"
  have a: "append_new (vardb_cp_all env) (portdb_cp_all env) = vardb_cp_all env @ rest"
    unfolding rest_def by (rule append_new_eq)
  have d: "distinct rest" unfolding rest_def by simp
  have s: "set rest = set (portdb_cp_all env) - set (vardb_cp_all env)"
    unfolding rest_def by auto
  have i: "set (vardb_cp_all env) \<inter> set rest = {}" using s by auto
  show ?thesis
    unfolding rest_def [symmetric] using a d s i by (auto simp: get_all_cp_def)
qed

theorem get_all_cp_cases_witness:
  "FILTER_INSTALLED \<in> set [FILTER_INSTALLED]
   \<and> get_all_cp sample_db [FILTER_INSTALLED] = [''app-text/foo'']
   \<and> FILTER_INSTALLED \<notin> set [FILTER_NOT_INSTALLED]
   \<and> FILTER_NOT_INSTALLED \<in> set [FILTER_NOT_INSTALLED]
   \<and> get_all_cp sample_db [FILTER_NOT_INSTALLED] = [''app-text/foo'', ''app-text/bar'']
   \<and> FILTER_INSTALLED \<notin> set [] \<and> FILTER_NOT_INSTALLED \<notin> set []
   \<and> get_all_cp sample_db [] = [''app-text/foo'', ''app-text/bar'']
   \<and> distinct (get_all_cp sample_db [])"
  using get_all_cp_cases [of "[FILTER_INSTALLED]" sample_db]
    get_all_cp_cases [of "[FILTER_NOT_INSTALLED]" sample_db]
    get_all_cp_cases [of "[]" sample_db]
  by (simp add: sample_db_def)

subsection \<open>The details search\<close>

lemma zip_steps_nonempty:
  "cps \<noteq> [] \<Longrightarrow>
   \<exists>p cp rest. zip (progress_iter (compute_equal_steps cps)) cps = (p, cp) # rest"
proof -
  assume "cps \<noteq> []"
  then obtain cp cps' where c: "cps = cp # cps'" by (cases cps) auto
  obtain p ps where "compute_equal_steps cps = p # ps"
    using c length_compute_equal_steps [of cps]
    by (cases "compute_equal_steps cps") (auto simp del: length_compute_equal_steps)
  then show ?thesis using c by (simp add: progress_iter_def)
qed

lemma details_loop_raises:
  "details_loop env filters search_list ((p, cp) # rest) = ([], Some TypeError)"
  by (simp add: call_kw_def)

lemma search_details_raises:
  assumes "get_all_cp env filters \<noteq> []"
  shows "search_details env filters keys =
         ([Status STATUS_QUERY, AllowCancel True, Percentage (progress_percent env)],
          Some TypeError)"
proof -
  obtain p cp rest where
    "zip (progress_iter (compute_equal_steps (get_all_cp env filters))) (get_all_cp env filters)
     = (p, cp) # rest"
    using zip_steps_nonempty [OF assms] by blast
  then show ?thesis
    by (simp add: search_details_def Let_def details_loop_raises del: details_loop.simps)
qed

lemma get_metadata_failure:
  "porttree_aux_get env cpv fs = None \<Longrightarrow> get_metadata env cpv fs = map (\<lambda>_. []) fs"
  by (simp add: get_metadata_def)

lemma found_in_iff: "found_in s metadata \<longleftrightarrow> (\<exists>(x, v) \<in> set metadata. re_search s v)"
  by (induction metadata) auto

lemma details_match_iff:
  "details_match search_list metadata \<longleftrightarrow>
   (\<forall>s \<in> set search_list. \<exists>(x, v) \<in> set metadata. re_search s v)"
  by (induction search_list) (auto simp: found_in_iff)

text \<open>
  C4. No exception leaves a driver, and a metadata lookup that fails gives empty fields and
  lets the scan go on. \<^verbatim>\<open>_get_metadata\<close> does give empty fields (\<open>get_metadata_failure\<close>), but
  the details search calls \<^verbatim>\<open>_get_all_cpv\<close> with a keyword it does not have: with one
  candidate group the driver ends with \<^verbatim>\<open>TypeError\<close> after the first percentage.
\<close>

theorem search_details_type_error:
  "search_details sample_db [] [''foo''] =
     ([Status STATUS_QUERY, AllowCancel True, Percentage 0], Some TypeError)"
proof -
  have "get_all_cp sample_db [] \<noteq> []" by (simp add: get_all_cp_def sample_db_def)
  then show ?thesis
    using search_details_raises [of sample_db "[]" "[''foo'']"] by (simp add: sample_db_def)
qed

text \<open>
  C1. A version matches a details search when every predicate is found in one of its
  metadata fields. The loop of the source decides so (\<open>details_match_iff\<close>), but the driver
  never reaches it: the installed version \<^verbatim>\<open>app-text/foo-1.0\<close> satisfies the predicate
  \<^verbatim>\<open>foo\<close> through its description, and the search for \<^verbatim>\<open>foo\<close> emits no package and ends with
  \<^verbatim>\<open>TypeError\<close>.
\<close>

theorem search_details_emits_no_match:
  "details_match (get_search_list sample_db [''foo''])
     (dict_set (zip details_fields (get_metadata sample_db ''app-text/foo-1.0'' details_fields))
        ''LICENSE'' ''GPL-2'')
   \<and> packages (fst (search_details sample_db [FILTER_INSTALLED] [''foo''])) = []
   \<and> snd (search_details sample_db [FILTER_INSTALLED] [''foo'']) = Some TypeError"
proof -
  have "get_all_cp sample_db [FILTER_INSTALLED] \<noteq> []" by (simp add: get_all_cp_def sample_db_def)
  then have "search_details sample_db [FILTER_INSTALLED] [''foo''] =
         ([Status STATUS_QUERY, AllowCancel True, Percentage (progress_percent sample_db)],
          Some TypeError)"
    by (rule search_details_raises)
  moreover have "details_match (get_search_list sample_db [''foo''])
     (dict_set (zip details_fields (get_metadata sample_db ''app-text/foo-1.0'' details_fields))
        ''LICENSE'' ''GPL-2'')"
    by code_simp
  ultimately show ?thesis by simp
qed

subsection \<open>Events of the group search\<close>

lemma percentages_append [simp]: "percentages (a @ b) = percentages a @ percentages b"
  by (induction a rule: percentages.induct) auto

lemma packages_append [simp]: "packages (a @ b) = packages a @ packages b"
  by (induction a rule: packages.induct) auto

lemma percentages_package_events [simp]: "percentages (map (package_event env) cpvs) = []"
  by (induction cpvs) (auto simp: package_event_def)

lemma packages_package_events [simp]:
  "packages (map (package_event env) cpvs) = map (package_event env) cpvs"
  by (induction cpvs) (auto simp: package_event_def)

lemma catsplit_slash:
  "CHR ''/'' \<in> set s \<Longrightarrow>
   catsplit s = [takeWhile (\<lambda>c. c \<noteq> CHR ''/'') s, tl (dropWhile (\<lambda>c. c \<noteq> CHR ''/'') s)]"
  by (simp add: catsplit_def)

lemma package_wf: "wf_cpv env cpv \<Longrightarrow> package env cpv None = ([package_event env cpv], None)"
  by (simp add: package_def get_metadata_def cpv_to_id_def catsplit_slash wf_cpv_def
      package_event_def split: option.split)

lemma package_all_wf:
  "\<forall>cpv \<in> set cpvs. wf_cpv env cpv \<Longrightarrow>
   package_all env cpvs = (map (package_event env) cpvs, None)"
  by (induction cpvs) (simp_all add: package_wf)

lemma group_cp_wf:
  "\<forall>cpv \<in> set (porttree_match env cp). wf_cpv env cpv \<Longrightarrow>
   group_cp env filters cp groups = (group_events env cp groups, None)"
  by (induction groups) (simp_all add: group_events_def package_all_wf get_all_cpv_def)

lemma percentages_group_events [simp]: "percentages (group_events env cp groups) = []"
  by (induction groups) (simp_all add: group_events_def)

lemma packages_group_events [simp]:
  "packages (group_events env cp groups) = group_events env cp groups"
  by (induction groups) (simp_all add: group_events_def)

lemma group_loop_wf:
  "\<forall>cp \<in> snd ` set pcs. \<forall>cpv \<in> set (porttree_match env cp). wf_cpv env cpv \<Longrightarrow>
   snd (group_loop env filters groups pcs) = None
   \<and> percentages (fst (group_loop env filters groups pcs)) = map fst pcs
   \<and> packages (fst (group_loop env filters groups pcs)) =
       concat (map (\<lambda>pc. group_events env (snd pc) groups) pcs)"
proof (induction pcs)
  case Nil
  then show ?case by simp
next
  case (Cons pc pcs)
  obtain p cp where pc: "pc = (p, cp)" by (cases pc)
  have "\<forall>cpv \<in> set (porttree_match env cp). wf_cpv env cpv" using Cons.prems pc by simp
  then have g: "group_cp env filters cp groups = (group_events env cp groups, None)"
    by (rule group_cp_wf)
  have ih: "snd (group_loop env filters groups pcs) = None
   \<and> percentages (fst (group_loop env filters groups pcs)) = map fst pcs
   \<and> packages (fst (group_loop env filters groups pcs)) =
       concat (map (\<lambda>pc. group_events env (snd pc) groups) pcs)"
    using Cons by simp
  show ?case using ih by (simp add: pc g)
qed

lemma zip_steps [simp]:
  "map fst (zip (progress_iter (compute_equal_steps cps)) cps) = compute_equal_steps cps"
  "map snd (zip (progress_iter (compute_equal_steps cps)) cps) = cps"
  by (simp_all add: progress_iter_def)

lemma search_group_wf:
  assumes "\<forall>cp \<in> set (get_all_cp env filters). \<forall>cpv \<in> set (porttree_match env cp). wf_cpv env cpv"
  shows "snd (search_group env filters groups) = None"
    and "percentages (fst (search_group env filters groups)) =
         progress_percent env # compute_equal_steps (get_all_cp env filters) @ [100]"
    and "packages (fst (search_group env filters groups)) =
         concat (map (\<lambda>cp. group_events env cp groups) (get_all_cp env filters))"
proof -
  define cps where "cps = get_all_cp env filters"
  define pcs where "pcs = zip (progress_iter (compute_equal_steps cps)) cps"
  have s: "snd ` set pcs = set cps"
    using zip_steps(2) [of cps] unfolding pcs_def by (metis set_map)
  have "\<forall>cp \<in> snd ` set pcs. \<forall>cpv \<in> set (porttree_match env cp). wf_cpv env cpv"
    using assms unfolding s cps_def by simp
  then have l: "snd (group_loop env filters groups pcs) = None
   \<and> percentages (fst (group_loop env filters groups pcs)) = map fst pcs
   \<and> packages (fst (group_loop env filters groups pcs)) =
       concat (map (\<lambda>pc. group_events env (snd pc) groups) pcs)"
    by (rule group_loop_wf)
  have m: "concat (map (\<lambda>pc. group_events env (snd pc) groups) pcs) =
           concat (map (\<lambda>cp. group_events env cp groups) cps)"
  proof -
    have "map (\<lambda>pc. group_events env (snd pc) groups) pcs =
          map (\<lambda>cp. group_events env cp groups) (map snd pcs)" by simp
    then show ?thesis unfolding pcs_def zip_steps by simp
  qed
  have f: "map fst pcs = compute_equal_steps cps" unfolding pcs_def by simp
  have sg: "search_group env filters groups =
        then_do ([Status STATUS_QUERY, AllowCancel True, Percentage (progress_percent env)], None)
           (then_do (group_loop env filters groups pcs) ([Percentage 100], None))"
    by (simp add: search_group_def Let_def pcs_def cps_def)
  obtain evs where e: "group_loop env filters groups pcs = (evs, None)"
    using l by (cases "group_loop env filters groups pcs") auto
  show "snd (search_group env filters groups) = None" by (simp add: sg e)
  show "percentages (fst (search_group env filters groups)) =
         progress_percent env # compute_equal_steps (get_all_cp env filters) @ [100]"
    using l f by (simp add: sg e cps_def)
  show "packages (fst (search_group env filters groups)) =
         concat (map (\<lambda>cp. group_events env cp groups) (get_all_cp env filters))"
    using l m by (simp add: sg e cps_def)
qed

subsection \<open>Splitting the terms of the name search\<close>

lemma catsplit_parts:
  "CHR ''/'' \<in> set k \<Longrightarrow> catsplit k = [category_of k, bare_name k]"
  by (simp add: catsplit_def category_of_def bare_name_def)

lemma index_of_bound: "\<exists>i \<le> length pre. index_of k (pre @ k # ks) = Some i"
  by (induction pre) auto

lemma index_of_first: "k \<notin> set pre \<Longrightarrow> index_of k (pre @ k # post) = Some (length pre)"
  by (induction pre) auto

lemma split_categories_plain:
  "\<forall>k \<in> set rem. CHR ''/'' \<notin> set k \<Longrightarrow> split_categories rem cats keys = Inr (cats, keys)"
  by (induction rem) simp_all

lemma split_categories_skip:
  "\<forall>k \<in> set pre. CHR ''/'' \<notin> set k \<Longrightarrow>
   split_categories (pre @ rest) cats keys = split_categories rest cats keys"
  by (induction pre) simp_all

lemma split_categories_total:
  "\<exists>keys'. split_categories rem cats (pre @ rem) =
            Inr (cats @ map category_of (filter (\<lambda>k. CHR ''/'' \<in> set k) rem), keys')"
proof (induction rem arbitrary: cats pre)
  case Nil
  then show ?case by simp
next
  case (Cons k ks)
  show ?case
  proof (cases "CHR ''/'' \<in> set k")
    case False
    have "\<exists>keys'. split_categories ks cats (pre @ k # ks) =
            Inr (cats @ map category_of (filter (\<lambda>k. CHR ''/'' \<in> set k) ks), keys')"
      using Cons.IH [of cats "pre @ [k]"] by simp
    then show ?thesis using False by simp
  next
    case True
    obtain i where i: "i \<le> length pre" "index_of k (pre @ k # ks) = Some i"
      using index_of_bound [of pre k ks] by blast
    define upd where "upd = (pre @ [k])[i := bare_name k]"
    have "i < length (pre @ [k])" using i(1) by simp
    then have "((pre @ [k]) @ ks)[i := bare_name k] = upd @ ks"
      unfolding upd_def by (rule list_update_append1)
    then have eq: "(pre @ k # ks)[i := bare_name k] = upd @ ks" by simp
    have step: "split_categories (k # ks) cats (pre @ k # ks) =
          split_categories ks (cats @ [category_of k]) ((pre @ k # ks)[i := bare_name k])"
      using True i(2) by (simp add: catsplit_parts)
    obtain keys' where k': "split_categories ks (cats @ [category_of k]) (upd @ ks) =
            Inr ((cats @ [category_of k]) @ map category_of (filter (\<lambda>k. CHR ''/'' \<in> set k) ks),
                 keys')"
      using Cons.IH [of "cats @ [category_of k]" upd] by blast
    have "split_categories (k # ks) cats (pre @ k # ks) =
            Inr (cats @ map category_of (filter (\<lambda>k. CHR ''/'' \<in> set k) (k # ks)), keys')"
      using True by (simp only: step eq k') simp
    then show ?thesis by blast
  qed
qed

lemma split_categories_single:
  assumes "\<forall>k \<in> set pre. CHR ''/'' \<notin> set k" "\<forall>k \<in> set post. CHR ''/'' \<notin> set k"
    and "CHR ''/'' \<in> set k0"
  shows "split_categories (pre @ k0 # post) [] (pre @ k0 # post) =
         Inr ([category_of k0], map bare_name (pre @ k0 # post))"
proof -
  have n: "k0 \<notin> set pre" using assms(1,3) by auto
  have "split_categories (pre @ k0 # post) [] (pre @ k0 # post) =
        split_categories (k0 # post) [] (pre @ k0 # post)"
    using assms(1) by (rule split_categories_skip)
  also have "\<dots> = split_categories post [category_of k0] (pre @ bare_name k0 # post)"
    using assms(3) n by (simp add: catsplit_parts index_of_first)
  also have "\<dots> = Inr ([category_of k0], pre @ bare_name k0 # post)"
    using assms(2) by (rule split_categories_plain)
  finally have r: "split_categories (pre @ k0 # post) [] (pre @ k0 # post) =
        Inr ([category_of k0], pre @ bare_name k0 # post)" .
  have "map bare_name pre = pre" using assms(1) by (intro map_idI) (simp add: bare_name_def)
  moreover have "map bare_name post = post"
    using assms(2) by (intro map_idI) (simp add: bare_name_def)
  ultimately have "pre @ bare_name k0 # post = map bare_name (pre @ k0 # post)" by simp
  then show ?thesis using r by simp
qed

lemma all_found_iff: "all_found search_list name \<longleftrightarrow> (\<forall>s \<in> set search_list. re_search s name)"
  by (induction search_list) auto

lemma package_events_subset:
  "set (fst (package env cpv None)) \<subseteq> {package_event env cpv}"
  by (auto simp: package_def get_metadata_def cpv_to_id_def package_event_def
      split: option.splits list.splits sum.splits)

lemma then_do_events: "set (fst (then_do a b)) \<subseteq> set (fst a) \<union> set (fst b)"
  by (cases a) (auto simp: then_do_def split: option.splits)

lemma package_all_events:
  "set (fst (package_all env cpvs)) \<subseteq> package_event env ` set cpvs"
proof (induction cpvs)
  case Nil
  then show ?case by simp
next
  case (Cons cpv cpvs)
  have "set (fst (package_all env (cpv # cpvs))) \<subseteq>
        set (fst (package env cpv None)) \<union> set (fst (package_all env cpvs))"
    by (simp add: then_do_events)
  then show ?case using Cons package_events_subset [of env cpv] by auto
qed

subsection \<open>Events of the name search\<close>

lemma percentages_name_events [simp]: "percentages (name_events env sl cp) = []"
  by (simp add: name_events_def)

lemma packages_name_events [simp]: "packages (name_events env sl cp) = name_events env sl cp"
  by (simp add: name_events_def)

lemma name_body_wf:
  "\<forall>cpv \<in> set (porttree_match env cp). wf_cpv env cpv \<Longrightarrow>
   name_body env filters sl cp (bare_name cp) = (name_events env sl cp, None)"
  by (simp add: name_body_def name_events_def package_all_wf get_all_cpv_def)

lemma name_loop_plain:
  assumes "\<not> truthy cf"
  shows "\<forall>cp \<in> snd ` set pcs. CHR ''/'' \<in> set cp
            \<and> (\<forall>cpv \<in> set (porttree_match env cp). wf_cpv env cpv) \<Longrightarrow>
   snd (name_loop env filters cf sl pcs) = None
   \<and> percentages (fst (name_loop env filters cf sl pcs)) = map fst pcs
   \<and> packages (fst (name_loop env filters cf sl pcs)) =
       concat (map (\<lambda>pc. name_events env sl (snd pc)) pcs)"
proof (induction pcs)
  case Nil
  then show ?case by simp
next
  case (Cons pc pcs)
  obtain p cp where pc: "pc = (p, cp)" by (cases pc)
  have s: "CHR ''/'' \<in> set cp" using Cons.prems pc by simp
  have "\<forall>cpv \<in> set (porttree_match env cp). wf_cpv env cpv" using Cons.prems pc by simp
  then have b: "name_body env filters sl cp (bare_name cp) = (name_events env sl cp, None)"
    by (rule name_body_wf)
  have ih: "snd (name_loop env filters cf sl pcs) = None
   \<and> percentages (fst (name_loop env filters cf sl pcs)) = map fst pcs
   \<and> packages (fst (name_loop env filters cf sl pcs)) =
       concat (map (\<lambda>pc. name_events env sl (snd pc)) pcs)"
    using Cons by simp
  show ?case using ih assms by (simp add: pc catsplit_parts [OF s] b)
qed

lemma name_loop_category:
  assumes "c \<noteq> []"
  shows "\<forall>cp \<in> snd ` set pcs. CHR ''/'' \<in> set cp
            \<and> (\<forall>cpv \<in> set (porttree_match env cp). wf_cpv env cpv) \<Longrightarrow>
   snd (name_loop env filters (Some c) sl pcs) = None
   \<and> percentages (fst (name_loop env filters (Some c) sl pcs)) =
       map fst (filter (\<lambda>pc. category_of (snd pc) = c) pcs)
   \<and> packages (fst (name_loop env filters (Some c) sl pcs)) =
       concat (map (\<lambda>pc. if category_of (snd pc) = c then name_events env sl (snd pc) else [])
                 pcs)"
proof (induction pcs)
  case Nil
  then show ?case by simp
next
  case (Cons pc pcs)
  obtain p cp where pc: "pc = (p, cp)" by (cases pc)
  have s: "CHR ''/'' \<in> set cp" using Cons.prems pc by simp
  have "\<forall>cpv \<in> set (porttree_match env cp). wf_cpv env cpv" using Cons.prems pc by simp
  then have b: "name_body env filters sl cp (bare_name cp) = (name_events env sl cp, None)"
    by (rule name_body_wf)
  have t: "truthy (Some c)" using assms by (simp add: truthy_def)
  have ih: "snd (name_loop env filters (Some c) sl pcs) = None
   \<and> percentages (fst (name_loop env filters (Some c) sl pcs)) =
       map fst (filter (\<lambda>pc. category_of (snd pc) = c) pcs)
   \<and> packages (fst (name_loop env filters (Some c) sl pcs)) =
       concat (map (\<lambda>pc. if category_of (snd pc) = c then name_events env sl (snd pc) else [])
                 pcs)"
    using Cons by simp
  show ?case using ih t by (simp add: pc catsplit_parts [OF s] b)
qed

lemma search_name_many:
  assumes "2 \<le> length (filter (\<lambda>k. CHR ''/'' \<in> set k) keys)"
  shows "search_name env filters keys = ([Status STATUS_QUERY, AllowCancel True], None)"
proof -
  obtain keys' where
    "split_categories keys [] ([] @ keys) =
       Inr ([] @ map category_of (filter (\<lambda>k. CHR ''/'' \<in> set k) keys), keys')"
    using split_categories_total [of keys "[]" "[]"] by blast
  then show ?thesis using assms by (simp add: search_name_def)
qed

lemma search_name_none:
  assumes "\<forall>k \<in> set keys. CHR ''/'' \<notin> set k"
    and "\<forall>cp \<in> set (get_all_cp env filters). CHR ''/'' \<in> set cp
            \<and> (\<forall>cpv \<in> set (porttree_match env cp). wf_cpv env cpv)"
  shows "snd (search_name env filters keys) = None"
    and "percentages (fst (search_name env filters keys)) =
         progress_percent env # compute_equal_steps (get_all_cp env filters) @ [100]"
    and "packages (fst (search_name env filters keys)) =
         concat (map (name_events env (map Substr keys)) (get_all_cp env filters))"
proof -
  define cps where "cps = get_all_cp env filters"
  define pcs where "pcs = zip (progress_iter (compute_equal_steps cps)) cps"
  define sl where "sl = map Substr keys"
  have sp: "split_categories keys [] keys = Inr ([], keys)"
    using assms(1) by (rule split_categories_plain)
  have s: "snd ` set pcs = set cps"
    using zip_steps(2) [of cps] unfolding pcs_def by (metis set_map)
  have "\<forall>cp \<in> snd ` set pcs. CHR ''/'' \<in> set cp
            \<and> (\<forall>cpv \<in> set (porttree_match env cp). wf_cpv env cpv)"
    using assms(2) unfolding s cps_def by simp
  then have l: "snd (name_loop env filters None sl pcs) = None
   \<and> percentages (fst (name_loop env filters None sl pcs)) = map fst pcs
   \<and> packages (fst (name_loop env filters None sl pcs)) =
       concat (map (\<lambda>pc. name_events env sl (snd pc)) pcs)"
    by (intro name_loop_plain) (simp_all add: truthy_def)
  have m: "concat (map (\<lambda>pc. name_events env sl (snd pc)) pcs) =
           concat (map (name_events env sl) cps)"
  proof -
    have "map (\<lambda>pc. name_events env sl (snd pc)) pcs = map (name_events env sl) (map snd pcs)"
      by simp
    then show ?thesis unfolding pcs_def zip_steps by simp
  qed
  have f: "map fst pcs = compute_equal_steps cps" unfolding pcs_def by simp
  have sn: "search_name env filters keys =
        then_do ([Status STATUS_QUERY, AllowCancel True], None)
          (then_do ([Percentage (progress_percent env)], None)
             (then_do (name_loop env filters None sl pcs) ([Percentage 100], None)))"
    by (simp add: search_name_def sp Let_def pcs_def cps_def sl_def)
  obtain evs where e: "name_loop env filters None sl pcs = (evs, None)"
    using l by (cases "name_loop env filters None sl pcs") auto
  show "snd (search_name env filters keys) = None" by (simp add: sn e)
  show "percentages (fst (search_name env filters keys)) =
         progress_percent env # compute_equal_steps (get_all_cp env filters) @ [100]"
    using l f by (simp add: sn e cps_def)
  have "packages (fst (search_name env filters keys)) = concat (map (name_events env sl) cps)"
    using l m by (simp add: sn e)
  then show "packages (fst (search_name env filters keys)) =
         concat (map (name_events env (map Substr keys)) (get_all_cp env filters))"
    unfolding sl_def cps_def .
qed

lemma search_name_one:
  assumes "filter (\<lambda>k. CHR ''/'' \<in> set k) keys = [k0]" and "category_of k0 \<noteq> []"
    and "\<forall>cp \<in> set (get_all_cp env filters). CHR ''/'' \<in> set cp
            \<and> (\<forall>cpv \<in> set (porttree_match env cp). wf_cpv env cpv)"
  shows "snd (search_name env filters keys) = None"
    and "packages (fst (search_name env filters keys)) =
         concat (map (\<lambda>cp. if category_of cp = category_of k0
                           then name_events env (map Substr (map bare_name keys)) cp else [])
                   (get_all_cp env filters))"
proof -
  define cps where "cps = get_all_cp env filters"
  define pcs where "pcs = zip (progress_iter (compute_equal_steps cps)) cps"
  define sl where "sl = map Substr (map bare_name keys)"
  define c where "c = category_of k0"
  obtain pre post where k: "keys = pre @ k0 # post"
    "\<forall>u \<in> set pre. CHR ''/'' \<notin> set u" "CHR ''/'' \<in> set k0" "[] = filter (\<lambda>k. CHR ''/'' \<in> set k) post"
    using assms(1) unfolding filter_eq_Cons_iff by blast
  have post: "\<forall>u \<in> set post. CHR ''/'' \<notin> set u"
    using k(4) by (metis filter_empty_conv)
  have sp: "split_categories keys [] keys = Inr ([c], map bare_name keys)"
    unfolding k(1) c_def using k(2) post k(3) by (rule split_categories_single)
  have s: "snd ` set pcs = set cps"
    using zip_steps(2) [of cps] unfolding pcs_def by (metis set_map)
  have "\<forall>cp \<in> snd ` set pcs. CHR ''/'' \<in> set cp
            \<and> (\<forall>cpv \<in> set (porttree_match env cp). wf_cpv env cpv)"
    using assms(3) unfolding s cps_def by simp
  then have l: "snd (name_loop env filters (Some c) sl pcs) = None
   \<and> percentages (fst (name_loop env filters (Some c) sl pcs)) =
       map fst (filter (\<lambda>pc. category_of (snd pc) = c) pcs)
   \<and> packages (fst (name_loop env filters (Some c) sl pcs)) =
       concat (map (\<lambda>pc. if category_of (snd pc) = c then name_events env sl (snd pc) else [])
                 pcs)"
    using assms(2) unfolding c_def by (intro name_loop_category)
  have m: "concat (map (\<lambda>pc. if category_of (snd pc) = c then name_events env sl (snd pc) else [])
                 pcs) =
           concat (map (\<lambda>cp. if category_of cp = c then name_events env sl cp else []) cps)"
  proof -
    have "map (\<lambda>pc. if category_of (snd pc) = c then name_events env sl (snd pc) else []) pcs =
          map (\<lambda>cp. if category_of cp = c then name_events env sl cp else []) (map snd pcs)"
      by simp
    then show ?thesis unfolding pcs_def zip_steps by simp
  qed
  have sn: "search_name env filters keys =
        then_do ([Status STATUS_QUERY, AllowCancel True], None)
          (then_do ([Percentage (progress_percent env)], None)
             (then_do (name_loop env filters (Some c) sl pcs) ([Percentage 100], None)))"
    by (simp add: search_name_def sp Let_def pcs_def cps_def sl_def)
  obtain evs where e: "name_loop env filters (Some c) sl pcs = (evs, None)"
    using l by (cases "name_loop env filters (Some c) sl pcs") auto
  show "snd (search_name env filters keys) = None" by (simp add: sn e)
  show "packages (fst (search_name env filters keys)) =
         concat (map (\<lambda>cp. if category_of cp = category_of k0
                           then name_events env (map Substr (map bare_name keys)) cp else [])
                   (get_all_cp env filters))"
  proof -
    have "packages (fst (search_name env filters keys)) =
          concat (map (\<lambda>cp. if category_of cp = c then name_events env sl cp else []) cps)"
      using l m by (simp add: sn e)
    then show ?thesis unfolding sl_def cps_def c_def .
  qed
qed

subsection \<open>The small database\<close>

lemma sample_db_wf:
  "\<forall>cp \<in> set (get_all_cp sample_db filters). CHR ''/'' \<in> set cp
      \<and> (\<forall>cpv \<in> set (porttree_match sample_db cp). wf_cpv sample_db cpv)"
  by (simp add: get_all_cp_def sample_db_def wf_cpv_def)

lemma sample_db_events:
  "package_event sample_db ''app-text/foo-1.0'' =
     Package ''foo;1.0;amd64;gentoo'' INFO_INSTALLED ''Foo''"
  "package_event sample_db ''app-text/bar-2.0'' =
     Package ''bar;2.0;amd64;gentoo'' INFO_AVAILABLE ''''"
  by code_simp+

lemma sample_db_groups:
  "get_all_cp sample_db [] = [''app-text/foo'', ''app-text/bar'']"
  "get_all_cp sample_db [FILTER_NOT_INSTALLED] = [''app-text/foo'', ''app-text/bar'']"
  by (simp_all add: get_all_cp_def sample_db_def)

lemma packages_subset: "set (packages evs) \<subseteq> set evs"
  by (induction evs rule: packages.induct) auto

subsection \<open>Category prefixes in the name search\<close>

text \<open>
  C3, as the claim states it: terms with exactly one distinct category prefix restrict the
  search to that category. The driver counts the terms that carry a prefix, not the
  distinct prefixes: the terms \<^verbatim>\<open>app-text/foo\<close> and \<^verbatim>\<open>app-text/f\<close> have the one prefix
  \<^verbatim>\<open>app-text\<close>, the group \<^verbatim>\<open>app-text/foo\<close> is in that category, its name contains both stripped
  terms and it has a version, yet the search returns at once and emits nothing.
\<close>

theorem search_name_same_category_counterexample:
  "category_of ''app-text/foo'' = ''app-text'' \<and> category_of ''app-text/f'' = ''app-text''
   \<and> ''app-text/foo'' \<in> set (get_all_cp sample_db [])
   \<and> all_found (map Substr (map bare_name [''app-text/foo'', ''app-text/f'']))
         (bare_name ''app-text/foo'')
   \<and> porttree_match sample_db ''app-text/foo'' = [''app-text/foo-1.0'']
   \<and> search_name sample_db [] [''app-text/foo'', ''app-text/f''] =
         ([Status STATUS_QUERY, AllowCancel True], None)"
proof -
  have a: "category_of ''app-text/foo'' = ''app-text'' \<and> category_of ''app-text/f'' = ''app-text''"
    by (simp add: category_of_def)
  have b: "all_found (map Substr (map bare_name [''app-text/foo'', ''app-text/f'']))
         (bare_name ''app-text/foo'')"
    by code_simp
  have c: "porttree_match sample_db ''app-text/foo'' = [''app-text/foo-1.0'']"
    by (simp add: sample_db_def)
  have "2 \<le> length (filter (\<lambda>k. CHR ''/'' \<in> set k) [''app-text/foo'', ''app-text/f''])"
    by simp
  then have d: "search_name sample_db [] [''app-text/foo'', ''app-text/f''] =
         ([Status STATUS_QUERY, AllowCancel True], None)"
    by (rule search_name_many)
  show ?thesis using a b c d by (simp add: sample_db_groups)
qed

text \<open>
  C3, amended. When two or more terms carry a category prefix, alike or not, the name
  search sets the status, allows cancelling and returns: no package, no percentage, no
  error. When exactly one term carries a prefix and that prefix is not empty, then over
  well-formed groups and versions the driver returns normally and emits exactly the
  versions of the candidate groups that are in that category and whose bare name contains
  every term, the prefix of the one term stripped.
\<close>

theorem search_name_categories:
  "(2 \<le> length (filter (\<lambda>k. CHR ''/'' \<in> set k) keys) \<longrightarrow>
      search_name env filters keys = ([Status STATUS_QUERY, AllowCancel True], None))
   \<and> (filter (\<lambda>k. CHR ''/'' \<in> set k) keys = [k0] \<and> category_of k0 \<noteq> []
        \<and> (\<forall>cp \<in> set (get_all_cp env filters). CHR ''/'' \<in> set cp
              \<and> (\<forall>cpv \<in> set (porttree_match env cp). wf_cpv env cpv)) \<longrightarrow>
      snd (search_name env filters keys) = None
      \<and> packages (fst (search_name env filters keys)) =
          concat (map (\<lambda>cp. if category_of cp = category_of k0
                            then name_events env (map Substr (map bare_name keys)) cp else [])
                    (get_all_cp env filters)))"
  using search_name_many [of keys env filters] search_name_one [of keys k0 env filters]
  by blast

theorem search_name_categories_witness:
  "2 \<le> length (filter (\<lambda>k. CHR ''/'' \<in> set k) [''app-text/foo'', ''dev-lang/app''])
   \<and> search_name sample_db [] [''app-text/foo'', ''dev-lang/app''] =
        ([Status STATUS_QUERY, AllowCancel True], None)
   \<and> filter (\<lambda>k. CHR ''/'' \<in> set k) [''app-text/FOO'', ''o''] = [''app-text/FOO'']
   \<and> category_of ''app-text/FOO'' \<noteq> []
   \<and> packages (fst (search_name sample_db [] [''app-text/FOO'', ''o''])) =
        [Package ''foo;1.0;amd64;gentoo'' INFO_INSTALLED ''Foo'']"
proof -
  have h1: "2 \<le> length (filter (\<lambda>k. CHR ''/'' \<in> set k) [''app-text/foo'', ''dev-lang/app''])"
    by simp
  have r1: "search_name sample_db [] [''app-text/foo'', ''dev-lang/app''] =
        ([Status STATUS_QUERY, AllowCancel True], None)"
    using search_name_categories [of "[''app-text/foo'', ''dev-lang/app'']" sample_db "[]"] h1
    by blast
  have h2: "filter (\<lambda>k. CHR ''/'' \<in> set k) [''app-text/FOO'', ''o''] = [''app-text/FOO'']"
    by simp
  have h3: "category_of ''app-text/FOO'' \<noteq> []" by (simp add: category_of_def)
  have "packages (fst (search_name sample_db [] [''app-text/FOO'', ''o''])) =
          concat (map (\<lambda>cp. if category_of cp = category_of ''app-text/FOO''
                            then name_events sample_db
                                   (map Substr (map bare_name [''app-text/FOO'', ''o''])) cp
                            else [])
                    (get_all_cp sample_db []))"
    using search_name_categories [of "[''app-text/FOO'', ''o'']" sample_db "[]" "''app-text/FOO''"]
      h2 h3 sample_db_wf [of "[]"]
    by blast
  also have "\<dots> = name_events sample_db [Substr ''FOO'', Substr ''o''] ''app-text/foo''
                    @ name_events sample_db [Substr ''FOO'', Substr ''o''] ''app-text/bar''"
    by (simp add: sample_db_groups category_of_def bare_name_def)
  also have "name_events sample_db [Substr ''FOO'', Substr ''o''] ''app-text/foo'' =
             [package_event sample_db ''app-text/foo-1.0'']"
    by code_simp
  also have "name_events sample_db [Substr ''FOO'', Substr ''o''] ''app-text/bar'' = []"
    by code_simp
  finally have r2: "packages (fst (search_name sample_db [] [''app-text/FOO'', ''o''])) =
        [Package ''foo;1.0;amd64;gentoo'' INFO_INSTALLED ''Foo'']"
    by (simp add: sample_db_events)
  show ?thesis using h1 r1 h2 h3 r2 by blast
qed

subsection \<open>The not-installed filter in the group and name searches\<close>

text \<open>
  C7, as the claim states it: with NOT\_INSTALLED no emitted package is classified as
  installed. \<^verbatim>\<open>_get_all_cpv\<close> does not read the filters: the group search with
  NOT\_INSTALLED emits the installed version \<^verbatim>\<open>app-text/foo-1.0\<close>, classified as installed.
\<close>

theorem search_group_not_installed_counterexample:
  "FILTER_NOT_INSTALLED \<in> set [FILTER_NOT_INSTALLED]
   \<and> is_installed sample_db ''app-text/foo-1.0''
   \<and> packages (fst (search_group sample_db [FILTER_NOT_INSTALLED] [''text''])) =
        [Package ''foo;1.0;amd64;gentoo'' INFO_INSTALLED ''Foo'',
         Package ''bar;2.0;amd64;gentoo'' INFO_AVAILABLE '''']"
proof -
  have a: "is_installed sample_db ''app-text/foo-1.0''"
    by (simp add: is_installed_def sample_db_def)
  have "\<forall>cp \<in> set (get_all_cp sample_db [FILTER_NOT_INSTALLED]).
          \<forall>cpv \<in> set (porttree_match sample_db cp). wf_cpv sample_db cpv"
    using sample_db_wf [of "[FILTER_NOT_INSTALLED]"] by blast
  then have "packages (fst (search_group sample_db [FILTER_NOT_INSTALLED] [''text''])) =
         concat (map (\<lambda>cp. group_events sample_db cp [''text''])
                   (get_all_cp sample_db [FILTER_NOT_INSTALLED]))"
    by (rule search_group_wf(3))
  also have "\<dots> = group_events sample_db ''app-text/foo'' [''text'']
                    @ group_events sample_db ''app-text/bar'' [''text'']"
    by (simp add: sample_db_groups)
  also have "group_events sample_db ''app-text/foo'' [''text''] =
             [package_event sample_db ''app-text/foo-1.0'']"
    by code_simp
  also have "group_events sample_db ''app-text/bar'' [''text''] =
             [package_event sample_db ''app-text/bar-2.0'']"
    by code_simp
  finally show ?thesis using a by (simp add: sample_db_events)
qed

text \<open>
  C7, amended. With NOT\_INSTALLED among the filters, the group search and the name search
  (terms without a category prefix) emit, over well-formed groups and versions, every
  repository version of every candidate group that matches, the installed ones too; each
  package carries the classification of the installed view, \<^verbatim>\<open>INFO_INSTALLED\<close> when the version
  has an installed match and \<^verbatim>\<open>INFO_AVAILABLE\<close> otherwise.
\<close>

theorem not_installed_filter_keeps_installed:
  assumes "FILTER_NOT_INSTALLED \<in> set filters"
    and "\<forall>cp \<in> set (get_all_cp env filters).
           \<forall>cpv \<in> set (porttree_match env cp). wf_cpv env cpv"
  shows "packages (fst (search_group env filters groups)) =
           concat (map (\<lambda>cp. concat (map (\<lambda>g. if get_pk_group env cp = g
                                                then map (package_event env) (porttree_match env cp)
                                                else []) groups))
                     (get_all_cp env filters))
         \<and> ((\<forall>k \<in> set keys. CHR ''/'' \<notin> set k)
              \<and> (\<forall>cp \<in> set (get_all_cp env filters). CHR ''/'' \<in> set cp) \<longrightarrow>
             packages (fst (search_name env filters keys)) =
               concat (map (\<lambda>cp. if all_found (map Substr keys) (bare_name cp)
                                 then map (package_event env) (porttree_match env cp) else [])
                         (get_all_cp env filters)))
         \<and> (\<forall>cpv. package_event env cpv =
               Package
                 (get_package_id env (catsplit (cpv_getkey env cpv) ! 1) (cpv_getversion env cpv)
                    (case settings_ARCH env of Some a \<Rightarrow> a | None \<Rightarrow> ''amd64'') ''gentoo'')
                 (if vartree_match env cpv \<noteq> [] then INFO_INSTALLED else INFO_AVAILABLE)
                 (get_metadata env cpv [''DESCRIPTION''] ! 0))"
proof -
  have g: "packages (fst (search_group env filters groups)) =
         concat (map (\<lambda>cp. group_events env cp groups) (get_all_cp env filters))"
    using assms(2) by (rule search_group_wf(3))
  have n: "packages (fst (search_name env filters keys)) =
         concat (map (name_events env (map Substr keys)) (get_all_cp env filters))"
    if "\<forall>k \<in> set keys. CHR ''/'' \<notin> set k"
      and "\<forall>cp \<in> set (get_all_cp env filters). CHR ''/'' \<in> set cp"
  proof -
    have "\<forall>cp \<in> set (get_all_cp env filters). CHR ''/'' \<in> set cp
            \<and> (\<forall>cpv \<in> set (porttree_match env cp). wf_cpv env cpv)"
      using assms(2) that(2) by blast
    with that(1) show ?thesis by (rule search_name_none(3))
  qed
  have A: "packages (fst (search_group env filters groups)) =
           concat (map (\<lambda>cp. concat (map (\<lambda>g. if get_pk_group env cp = g
                                                then map (package_event env) (porttree_match env cp)
                                                else []) groups))
                     (get_all_cp env filters))"
    using g unfolding group_events_def .
  have B: "(\<forall>k \<in> set keys. CHR ''/'' \<notin> set k)
              \<and> (\<forall>cp \<in> set (get_all_cp env filters). CHR ''/'' \<in> set cp) \<longrightarrow>
             packages (fst (search_name env filters keys)) =
               concat (map (\<lambda>cp. if all_found (map Substr keys) (bare_name cp)
                                 then map (package_event env) (porttree_match env cp) else [])
                         (get_all_cp env filters))"
  proof
    assume h: "(\<forall>k \<in> set keys. CHR ''/'' \<notin> set k)
              \<and> (\<forall>cp \<in> set (get_all_cp env filters). CHR ''/'' \<in> set cp)"
    have e: "name_events env (map Substr keys) =
             (\<lambda>cp. if all_found (map Substr keys) (bare_name cp)
                   then map (package_event env) (porttree_match env cp) else [])"
      by (rule ext) (simp add: name_events_def)
    show "packages (fst (search_name env filters keys)) =
               concat (map (\<lambda>cp. if all_found (map Substr keys) (bare_name cp)
                                 then map (package_event env) (porttree_match env cp) else [])
                         (get_all_cp env filters))"
      using n h unfolding e by blast
  qed
  have C: "\<forall>cpv. package_event env cpv =
               Package
                 (get_package_id env (catsplit (cpv_getkey env cpv) ! 1) (cpv_getversion env cpv)
                    (case settings_ARCH env of Some a \<Rightarrow> a | None \<Rightarrow> ''amd64'') ''gentoo'')
                 (if vartree_match env cpv \<noteq> [] then INFO_INSTALLED else INFO_AVAILABLE)
                 (get_metadata env cpv [''DESCRIPTION''] ! 0)"
    by (simp add: package_event_def is_installed_def)
  show ?thesis using A B C by blast
qed

theorem not_installed_filter_keeps_installed_witness:
  "FILTER_NOT_INSTALLED \<in> set [FILTER_NOT_INSTALLED]
   \<and> vartree_match sample_db ''app-text/foo-1.0'' \<noteq> []
   \<and> packages (fst (search_name sample_db [FILTER_NOT_INSTALLED] [''oo''])) =
        [Package ''foo;1.0;amd64;gentoo'' INFO_INSTALLED ''Foo'']"
proof -
  have h1: "FILTER_NOT_INSTALLED \<in> set [FILTER_NOT_INSTALLED]" by simp
  have h2: "\<forall>cp \<in> set (get_all_cp sample_db [FILTER_NOT_INSTALLED]).
         \<forall>cpv \<in> set (porttree_match sample_db cp). wf_cpv sample_db cpv"
    using sample_db_wf [of "[FILTER_NOT_INSTALLED]"] by blast
  have h3: "\<forall>k \<in> set [''oo'']. CHR ''/'' \<notin> set k" by simp
  have h4: "\<forall>cp \<in> set (get_all_cp sample_db [FILTER_NOT_INSTALLED]). CHR ''/'' \<in> set cp"
    using sample_db_wf [of "[FILTER_NOT_INSTALLED]"] by blast
  have h5: "vartree_match sample_db ''app-text/foo-1.0'' \<noteq> []" by (simp add: sample_db_def)
  have "packages (fst (search_name sample_db [FILTER_NOT_INSTALLED] [''oo''])) =
               concat (map (\<lambda>cp. if all_found (map Substr [''oo'']) (bare_name cp)
                                 then map (package_event sample_db) (porttree_match sample_db cp)
                                 else [])
                         (get_all_cp sample_db [FILTER_NOT_INSTALLED]))"
    using not_installed_filter_keeps_installed [OF h1 h2, of "[''text'']" "[''oo'']"] h3 h4
    by blast
  also have "\<dots> = (if all_found [Substr ''oo''] (bare_name ''app-text/foo'')
                     then map (package_event sample_db) (porttree_match sample_db ''app-text/foo'')
                     else [])
                  @ (if all_found [Substr ''oo''] (bare_name ''app-text/bar'')
                     then map (package_event sample_db) (porttree_match sample_db ''app-text/bar'')
                     else [])"
    by (simp add: sample_db_groups)
  also have "(if all_found [Substr ''oo''] (bare_name ''app-text/foo'')
                     then map (package_event sample_db) (porttree_match sample_db ''app-text/foo'')
                     else []) = [package_event sample_db ''app-text/foo-1.0'']"
    by code_simp
  also have "(if all_found [Substr ''oo''] (bare_name ''app-text/bar'')
                     then map (package_event sample_db) (porttree_match sample_db ''app-text/bar'')
                     else []) = []"
    by code_simp
  finally have r: "packages (fst (search_name sample_db [FILTER_NOT_INSTALLED] [''oo''])) =
        [Package ''foo;1.0;amd64;gentoo'' INFO_INSTALLED ''Foo'']"
    by (simp add: sample_db_events)
  show ?thesis using h1 h5 r by blast
qed

subsection \<open>Matching in the file search\<close>





lemma file_hit_full: "file_hit True key sre fs = Inr (key \<in> set fs)"
  by (induction fs) auto

lemma file_hit_end:
  "file_hit False key (Some re) fs = Inr (\<exists>f \<in> set fs. re_search re f)"
  by (induction fs) auto

lemma file_cpvs_wf:
  assumes "file_hit ifp key sre = (\<lambda>fs. Inr (hit fs))"
  shows "\<forall>cpv \<in> set cpvs. wf_cpv env cpv \<Longrightarrow>
         file_cpvs env ifp key sre cpvs =
           (map (package_event env) (filter (\<lambda>cpv. hit (get_file_list env cpv)) cpvs), None)"
  by (induction cpvs) (simp_all add: assms package_wf)







subsection \<open>Events of the file search\<close>

lemma file_cpvs_ok:
  assumes "\<forall>cpv \<in> set cpvs. wf_cpv env cpv" "ifp \<or> sre \<noteq> None"
  shows "\<exists>hit. file_cpvs env ifp key sre cpvs =
           (map (package_event env) (filter (\<lambda>cpv. hit (get_file_list env cpv)) cpvs), None)"
proof (cases ifp)
  case True
  have "file_hit ifp key sre = (\<lambda>fs. Inr (key \<in> set fs))"
    using True by (intro ext) (simp add: file_hit_full)
  from file_cpvs_wf [OF this assms(1)] show ?thesis
    by (rule exI [where x = "\<lambda>fs. key \<in> set fs"])
next
  case False
  then obtain re where re: "sre = Some re" using assms(2) by auto
  have "file_hit ifp key sre = (\<lambda>fs. Inr (\<exists>f \<in> set fs. re_search re f))"
    using False re by (intro ext) (simp add: file_hit_end)
  from file_cpvs_wf [OF this assms(1)] show ?thesis
    by (rule exI [where x = "\<lambda>fs. \<exists>f \<in> set fs. re_search re f"])
qed

lemma file_loop_percentages:
  assumes "\<forall>cpv. wf_cpv env cpv"
  shows "\<forall>pk \<in> set pks. snd pk \<noteq> [] \<Longrightarrow> ifp \<or> sre \<noteq> None \<Longrightarrow>
         snd (file_loop env filters cpvs ifp sre pks) = None
         \<and> percentages (fst (file_loop env filters cpvs ifp sre pks)) = map fst pks"
proof (induction pks arbitrary: cpvs ifp sre)
  case Nil
  then show ?case by simp
next
  case (Cons pk pks)
  obtain p key where pk: "pk = (p, key)" by (cases pk)
  obtain c r where key: "key = c # r" using Cons.prems(1) pk by (cases key) auto
  define ifp' where "ifp' = (if c \<noteq> CHR ''/'' then False else ifp)"
  define key' where "key' = (if c \<noteq> CHR ''/'' then re_escape key else key)"
  define sre' where "sre' = (if c \<noteq> CHR ''/'' then Some (PathEnd key) else sre)"
  define cpvs' where "cpvs' = filter_free env cpvs filters"
  have inv: "ifp' \<or> sre' \<noteq> None" using Cons.prems(2) by (auto simp: ifp'_def sre'_def)
  have "\<forall>cpv \<in> set cpvs'. wf_cpv env cpv" using assms by simp
  then obtain hit where h: "file_cpvs env ifp' key' sre' cpvs' =
           (map (package_event env) (filter (\<lambda>cpv. hit (get_file_list env cpv)) cpvs'), None)"
    using file_cpvs_ok [OF _ inv] by blast
  have ih: "snd (file_loop env filters cpvs' ifp' sre' pks) = None
         \<and> percentages (fst (file_loop env filters cpvs' ifp' sre' pks)) = map fst pks"
    using Cons.IH [OF _ inv] Cons.prems(1) by simp
  have step: "file_loop env filters cpvs ifp sre (pk # pks) =
        then_do (file_cpvs env ifp' key' sre' cpvs')
          (then_do ([Percentage p], None) (file_loop env filters cpvs' ifp' sre' pks))"
    unfolding pk key ifp'_def key'_def sre'_def cpvs'_def by (simp add: Let_def)
  show ?case unfolding step using ih by (simp add: h pk)
qed

lemma search_file_percentages:
  assumes "\<forall>cpv. wf_cpv env cpv" "FILTER_NOT_INSTALLED \<notin> set filters" "[] \<notin> set vals"
  shows "snd (search_file env filters vals) = None"
    and "percentages (fst (search_file env filters vals)) =
         progress_percent env # compute_equal_steps vals @ [100]"
proof -
  define pks where "pks = zip (progress_iter (compute_equal_steps vals)) vals"
  have "snd ` set pks = set vals"
    using zip_steps(2) [of vals] unfolding pks_def by (metis set_map)
  then have "\<forall>pk \<in> set pks. snd pk \<noteq> []" using assms(3) by force
  then have l: "snd (file_loop env filters (vardb_cpv_all env) True None pks) = None
         \<and> percentages (fst (file_loop env filters (vardb_cpv_all env) True None pks)) =
             map fst pks"
    using file_loop_percentages [OF assms(1)] by blast
  have f: "map fst pks = compute_equal_steps vals" unfolding pks_def by simp
  obtain evs where e: "file_loop env filters (vardb_cpv_all env) True None pks = (evs, None)"
    using l by (cases "file_loop env filters (vardb_cpv_all env) True None pks") auto
  have sf: "search_file env filters vals =
       then_do ([Status STATUS_QUERY, AllowCancel True], None)
         (then_do ([Percentage (progress_percent env)], None)
            (then_do (file_loop env filters (vardb_cpv_all env) True None pks)
               ([Percentage 100], None)))"
    using assms(2) by (simp add: search_file_def Let_def pks_def)
  show "snd (search_file env filters vals) = None" by (simp add: sf e)
  show "percentages (fst (search_file env filters vals)) =
         progress_percent env # compute_equal_steps vals @ [100]"
    using l f by (simp add: sf e)
qed



lemma sample_db_wf_all: "\<forall>cpv. wf_cpv sample_db cpv"
  by (simp add: sample_db_def wf_cpv_def)

subsection \<open>Terms of the file search\<close>




subsection \<open>Percentage updates\<close>

lemma search_details_empty:
  "get_all_cp env filters = [] \<Longrightarrow>
   search_details env filters keys =
     ([Status STATUS_QUERY, AllowCancel True, Percentage (progress_percent env), Percentage 100],
      None)"
  by (simp add: search_details_def compute_equal_steps_def progress_iter_def)

lemma compute_equal_steps_last_le:
  assumes "xs \<noteq> []"
  shows "last (compute_equal_steps xs) \<le> 100 + 1 / 2 ^ 46"
proof -
  have "0 < length xs" using assms by simp
  then show ?thesis
    using float_product_near_100 [of "length xs"]
    by (simp only: compute_equal_steps_last [OF assms])
qed

text \<open>
  C2, as the claim states it: every run of a driver emits percentages that end at 100. The
  name search with two terms that carry a category prefix returns normally before its
  first percentage: it emits none.
\<close>

theorem search_name_no_percentage_counterexample:
  "snd (search_name sample_db [] [''app-text/foo'', ''dev-lang/app'']) = None
   \<and> percentages (fst (search_name sample_db [] [''app-text/foo'', ''dev-lang/app''])) = []"
proof -
  have "2 \<le> length (filter (\<lambda>k. CHR ''/'' \<in> set k) [''app-text/foo'', ''dev-lang/app''])"
    by simp
  then have "search_name sample_db [] [''app-text/foo'', ''dev-lang/app''] =
         ([Status STATUS_QUERY, AllowCancel True], None)"
    by (rule search_name_many)
  then show ?thesis by simp
qed

text \<open>
  C2, amended. Over well-formed groups and versions, a group search, a name search whose
  terms carry no category prefix, a file search without NOT\_INSTALLED and without an empty
  term, and a details search with no candidate group return normally, and their percentage
  updates are: the first value of the progress tracker, then one checkpoint for each
  candidate group (for each term in the file search) whether or not a package was emitted
  for it, then 100. The checkpoints are the computed steps: as many as candidates, never
  decreasing, the last at most \<open>2^-46\<close> above 100.
\<close>

theorem percentage_updates:
  "((\<forall>cp \<in> set (get_all_cp env filters). \<forall>cpv \<in> set (porttree_match env cp). wf_cpv env cpv) \<longrightarrow>
      snd (search_group env filters groups) = None
      \<and> percentages (fst (search_group env filters groups)) =
          progress_percent env # compute_equal_steps (get_all_cp env filters) @ [100])
   \<and> ((\<forall>k \<in> set keys. CHR ''/'' \<notin> set k)
       \<and> (\<forall>cp \<in> set (get_all_cp env filters). CHR ''/'' \<in> set cp
             \<and> (\<forall>cpv \<in> set (porttree_match env cp). wf_cpv env cpv)) \<longrightarrow>
      snd (search_name env filters keys) = None
      \<and> percentages (fst (search_name env filters keys)) =
          progress_percent env # compute_equal_steps (get_all_cp env filters) @ [100])
   \<and> ((\<forall>cpv. wf_cpv env cpv) \<and> FILTER_NOT_INSTALLED \<notin> set filters \<and> [] \<notin> set vals \<longrightarrow>
      snd (search_file env filters vals) = None
      \<and> percentages (fst (search_file env filters vals)) =
          progress_percent env # compute_equal_steps vals @ [100])
   \<and> (get_all_cp env filters = [] \<longrightarrow>
      snd (search_details env filters keys) = None
      \<and> percentages (fst (search_details env filters keys)) = [progress_percent env, 100])
   \<and> length (compute_equal_steps xs) = length xs
   \<and> sorted (compute_equal_steps xs)
   \<and> (xs \<noteq> [] \<longrightarrow> last (compute_equal_steps xs) \<le> 100 + 1 / 2 ^ 46)"
proof -
  have A: "(\<forall>cp \<in> set (get_all_cp env filters). \<forall>cpv \<in> set (porttree_match env cp). wf_cpv env cpv) \<longrightarrow>
      snd (search_group env filters groups) = None
      \<and> percentages (fst (search_group env filters groups)) =
          progress_percent env # compute_equal_steps (get_all_cp env filters) @ [100]"
    using search_group_wf(1,2) [of env filters groups] by blast
  have B: "(\<forall>k \<in> set keys. CHR ''/'' \<notin> set k)
       \<and> (\<forall>cp \<in> set (get_all_cp env filters). CHR ''/'' \<in> set cp
             \<and> (\<forall>cpv \<in> set (porttree_match env cp). wf_cpv env cpv)) \<longrightarrow>
      snd (search_name env filters keys) = None
      \<and> percentages (fst (search_name env filters keys)) =
          progress_percent env # compute_equal_steps (get_all_cp env filters) @ [100]"
    using search_name_none(1,2) [of keys env filters] by blast
  have C: "(\<forall>cpv. wf_cpv env cpv) \<and> FILTER_NOT_INSTALLED \<notin> set filters \<and> [] \<notin> set vals \<longrightarrow>
      snd (search_file env filters vals) = None
      \<and> percentages (fst (search_file env filters vals)) =
          progress_percent env # compute_equal_steps vals @ [100]"
    using search_file_percentages [of env filters vals] by blast
  have D: "get_all_cp env filters = [] \<longrightarrow>
      snd (search_details env filters keys) = None
      \<and> percentages (fst (search_details env filters keys)) = [progress_percent env, 100]"
    by (simp add: search_details_empty)
  have E: "length (compute_equal_steps xs) = length xs" by simp
  have F: "sorted (compute_equal_steps xs)" by (rule compute_equal_steps_sorted)
  have G: "xs \<noteq> [] \<longrightarrow> last (compute_equal_steps xs) \<le> 100 + 1 / 2 ^ 46"
    using compute_equal_steps_last_le [of xs] by blast
  show ?thesis using A B C D E F G by blast
qed

theorem percentage_updates_witness:
  "percentages (fst (search_group sample_db [] [''none''])) = [0, 50, 100, 100]
   \<and> percentages (fst (search_name sample_db [] [''foo''])) = [0, 50, 100, 100]
   \<and> FILTER_NOT_INSTALLED \<notin> set [] \<and> [] \<notin> set [''foo.so'']
   \<and> percentages (fst (search_file sample_db [] [''foo.so''])) = [0, 100, 100]
   \<and> get_all_cp (sample_db\<lparr>vardb_cp_all := []\<rparr>) [FILTER_INSTALLED] = []
   \<and> percentages (fst (search_details (sample_db\<lparr>vardb_cp_all := []\<rparr>) [FILTER_INSTALLED] [''foo'']))
       = [0, 100]"
proof -
  have s2: "compute_equal_steps [''app-text/foo'', ''app-text/bar''] = [50, 100]" by code_simp
  have s1: "compute_equal_steps [''foo.so''] = [100]" by code_simp
  have p0: "progress_percent sample_db = 0" by (simp add: sample_db_def)
  have h1: "\<forall>cp \<in> set (get_all_cp sample_db []).
       \<forall>cpv \<in> set (porttree_match sample_db cp). wf_cpv sample_db cpv"
    using sample_db_wf [of "[]"] by blast
  have h2: "\<forall>k \<in> set [''foo'']. CHR ''/'' \<notin> set k" by simp
  have h3: "\<forall>cp \<in> set (get_all_cp sample_db []). CHR ''/'' \<in> set cp
             \<and> (\<forall>cpv \<in> set (porttree_match sample_db cp). wf_cpv sample_db cpv)"
    by (rule sample_db_wf)
  have h4: "(\<forall>cpv. wf_cpv sample_db cpv) \<and> FILTER_NOT_INSTALLED \<notin> set []
            \<and> [] \<notin> set [''foo.so'']"
    using sample_db_wf_all by simp
  have h5: "get_all_cp (sample_db\<lparr>vardb_cp_all := []\<rparr>) [FILTER_INSTALLED] = []"
    by (simp add: get_all_cp_def)
  have g: "percentages (fst (search_group sample_db [] [''none''])) =
          progress_percent sample_db # compute_equal_steps (get_all_cp sample_db []) @ [100]"
    using percentage_updates [of sample_db "[]" "[''none'']"] h1 by blast
  have n: "percentages (fst (search_name sample_db [] [''foo''])) =
          progress_percent sample_db # compute_equal_steps (get_all_cp sample_db []) @ [100]"
    using percentage_updates [of sample_db "[]" _ "[''foo'']"] h2 h3 by blast
  have f: "percentages (fst (search_file sample_db [] [''foo.so''])) =
          progress_percent sample_db # compute_equal_steps [''foo.so''] @ [100]"
    using percentage_updates [of sample_db "[]" _ _ "[''foo.so'']"] h4 by blast
  have d: "percentages (fst (search_details (sample_db\<lparr>vardb_cp_all := []\<rparr>) [FILTER_INSTALLED]
                               [''foo''])) =
           [progress_percent (sample_db\<lparr>vardb_cp_all := []\<rparr>), 100]"
    using percentage_updates [of "sample_db\<lparr>vardb_cp_all := []\<rparr>" "[FILTER_INSTALLED]" _ "[''foo'']"]
      h5 by blast
  have g': "percentages (fst (search_group sample_db [] [''none''])) = [0, 50, 100, 100]"
    using g by (simp add: p0 sample_db_groups s2)
  have n': "percentages (fst (search_name sample_db [] [''foo''])) = [0, 50, 100, 100]"
    using n by (simp add: p0 sample_db_groups s2)
  have f': "percentages (fst (search_file sample_db [] [''foo.so''])) = [0, 100, 100]"
    using f by (simp add: p0 s1)
  have d': "percentages (fst (search_details (sample_db\<lparr>vardb_cp_all := []\<rparr>) [FILTER_INSTALLED]
                               [''foo''])) = [0, 100]"
    using d by (simp add: sample_db_def)
  show ?thesis using h4 h5 g' n' f' d' by blast
qed

end
